theory Spec2Isabelle
  imports Complex_Main
begin

section \<open>WideTree (tree.js): data model\<close>

text \<open>
  JavaScript numbers are modelled as exact rationals: every number the library computes is
  a sum of caller-supplied coordinates, the layout constants and halves of them.
\<close>

type_synonym number = rat

definition NODE_WIDTH :: number where "NODE_WIDTH = 75"
definition NODE_MARGIN_X :: number where "NODE_MARGIN_X = 10"
definition NODE_HEIGHT :: number where "NODE_HEIGHT = 80"
definition NODE_MARGIN_Y :: number where "NODE_MARGIN_Y = 20"

text \<open>
  A backing node is an object of the caller: \<open>getChildren\<close> is its child array, \<open>bid\<close> its
  identity (the key of its mutable slot \<open>drawingTreeNodeIsExpanded\<close>). The hierarchy is a
  finite tree; on a hierarchy with a cycle of remembered expansions the constructor would
  not return.
\<close>

datatype backing = Backing (bid: nat) (getChildren: "backing list")

text \<open>
  The fields of a \<open>DrawingTreeNode\<close> object. DOM elements are referred to by identity
  (a natural number); \<open>None\<close> is \<open>null\<close>/\<open>undefined\<close>.
\<close>

record viewport =
  vp_x :: number
  vp_y :: number

record vfields =
  innerNode :: backing
  nodeChildren :: "backing list"
  requiredWidth :: number
  representation :: "nat option"
  isExpanded :: bool
  childBar :: "nat option"
  horizontalBar :: "nat option"
  parentBar :: "nat option"
  lastContainer :: "nat option"
  lastViewport :: "viewport option"

text \<open>
  A node owns its \<open>children\<close> array. The \<open>parent\<close> back-reference is the position of
  the node in the tree: the parent of the node at path \<open>p @ [i]\<close> is the node at path \<open>p\<close>,
  and the root (path \<open>[]\<close>) is the node constructed without a parent.
\<close>

datatype DrawingTreeNode = Node (attrs: vfields) (children: "DrawingTreeNode list")

section \<open>The host: DOM elements, backing-node slots, deferred work\<close>

text \<open>
  The part of a DOM element the library reads or writes. Style values are the number in
  front of \<open>px\<close> (\<open>None\<close> is the empty string), \<open>innerHTML\<close> the number it was set to.
\<close>

record element =
  className :: string
  style_left :: "number option"
  style_top :: "number option"
  style_width :: "number option"
  innerHTML :: "nat option"
  parentNode :: "nat option"
  listeners :: "string list"

text \<open>
  Everything outside the tree of \<open>DrawingTreeNode\<close> objects: the elements created so far
  (identities below \<open>nextId\<close>), the child list of each element, the slot
  \<open>drawingTreeNodeIsExpanded\<close> of each backing node, the calls of \<open>getChildren\<close> made so far
  (by backing identity), the closures handed to \<open>setImmediate\<close>/\<open>setTimeout\<close> that have not
  run yet (each named by the path of the node it captured), and the paths of the nodes on
  which \<open>redraw\<close> ran.
\<close>

record world =
  elems :: "nat \<Rightarrow> element"
  childNodes :: "nat \<Rightarrow> nat list"
  nextId :: nat
  drawingTreeNodeIsExpanded :: "nat \<Rightarrow> bool"
  getChildrenCalls :: "nat list"
  pendingWork :: "nat list list"
  redrawCalls :: "nat list list"

definition blank :: element where
  "blank = \<lparr>className = [], style_left = None, style_top = None, style_width = None,
            innerHTML = None, parentNode = None, listeners = []\<rparr>"

definition createElement :: "world \<Rightarrow> nat \<times> world" where
  "createElement w =
     (nextId w, w\<lparr>elems := (elems w)(nextId w := blank),
                   childNodes := (childNodes w)(nextId w := []),
                   nextId := Suc (nextId w)\<rparr>)"

definition modify :: "nat \<Rightarrow> (element \<Rightarrow> element) \<Rightarrow> world \<Rightarrow> world" where
  "modify e g w = w\<lparr>elems := (elems w)(e := g (elems w e))\<rparr>"

text \<open>\<open>removeChild\<close> is only called on the parent the element reports.\<close>

definition removeChild :: "nat \<Rightarrow> nat \<Rightarrow> world \<Rightarrow> world" where
  "removeChild p e w =
     modify e (\<lambda>r. r\<lparr>parentNode := None\<rparr>)
       (w\<lparr>childNodes := (childNodes w)(p := removeAll e (childNodes w p))\<rparr>)"

text \<open>
  \<open>appendChild\<close> moves an element that already has a parent. The library appends
  representations, connectors and badges only, never an element into one of its own
  descendants, which the DOM would refuse.
\<close>

definition appendChild :: "nat \<Rightarrow> nat \<Rightarrow> world \<Rightarrow> world" where
  "appendChild p e w =
     (let w1 = (case parentNode (elems w e) of None \<Rightarrow> w | Some q \<Rightarrow> removeChild q e w)
      in modify e (\<lambda>r. r\<lparr>parentNode := Some p\<rparr>)
           (w1\<lparr>childNodes := (childNodes w1)(p := childNodes w1 p @ [e])\<rparr>))"

section \<open>Layout engine\<close>

text \<open>
  \<open>getRequiredWidth\<close> returns the width and the node with its caches (and those of its
  descendants) filled. \<open>sumWidths\<close> is the \<open>for\<close> loop accumulating into
  \<open>this.requiredWidth\<close>.
\<close>

fun getRequiredWidth :: "DrawingTreeNode \<Rightarrow> number \<times> DrawingTreeNode"
  and sumWidths :: "number \<Rightarrow> DrawingTreeNode list \<Rightarrow> number \<times> DrawingTreeNode list"
where
  "getRequiredWidth (Node f cs) =
     (if requiredWidth f = - 1 then
        (let (w0, cs') = sumWidths 0 cs;
             w1 = (if length cs > 0 then w0 + NODE_MARGIN_X * (of_nat (length cs) - 1) else w0);
             w2 = (if w1 < NODE_WIDTH then NODE_WIDTH else w1)
         in (w2, Node (f\<lparr>requiredWidth := w2\<rparr>) cs'))
      else (requiredWidth f, Node f cs))"
| "sumWidths acc [] = (acc, [])"
| "sumWidths acc (c # cs) =
     (let (w, c') = getRequiredWidth c;
          (total, cs') = sumWidths (acc + w) cs
      in (total, c' # cs'))"

section \<open>Visual node model\<close>

text \<open>
  Modelled from the spec: \<open>createRepresentation() -> VisualElement\<close> of the backing node,
  which is code of the caller, "produces the node's visible content"; here it produces a
  new element.
\<close>

definition backing_createRepresentation :: "backing \<Rightarrow> world \<Rightarrow> nat \<times> world" where
  "backing_createRepresentation b w = createElement w"

text \<open>
  \<open>createRepresentation\<close>: the new representation gets the \<open>children\<close> badge and the two
  listeners (\<open>click\<close>, \<open>mousedown\<close>), recorded by the name of their event. What the \<open>click\<close>
  listener does is \<open>click\<close> below; the \<open>mousedown\<close> listener only suppresses the default
  action of the event.
\<close>

definition createRepresentation :: "vfields \<Rightarrow> world \<Rightarrow> vfields \<times> world" where
  "createRepresentation f w =
     (let (rep, w1) = backing_createRepresentation (innerNode f) w;
          (childrenCount, w2) = createElement w1;
          w3 = modify childrenCount
                 (\<lambda>r. r\<lparr>className := ''children'',
                         innerHTML := Some (length (nodeChildren f))\<rparr>) w2;
          w4 = appendChild rep childrenCount w3;
          w5 = modify rep (\<lambda>r. r\<lparr>listeners := listeners r @ [''click'', ''mousedown'']\<rparr>) w4
      in (f\<lparr>representation := Some rep\<rparr>, w5))"

definition setExpandedSlot :: "backing \<Rightarrow> bool \<Rightarrow> world \<Rightarrow> world" where
  "setExpandedSlot b v w =
     w\<lparr>drawingTreeNodeIsExpanded := (drawingTreeNodeIsExpanded w)(bid b := v)\<rparr>"

text \<open>
  The constructor and the \<open>map\<close> of \<open>expand\<close> call each other. The recursion is on the backing
  hierarchy: \<open>constructEach recurse xs\<close> is \<open>xs.map(function(x) {...})\<close> of \<open>expand(recurse)\<close>,
  and the two places where the source calls \<open>expand\<close> on the node just constructed
  (line 34 and line 100) are written out on that node's snapshot, which is
  \<open>getChildren\<close> of its backing node. The equations \<open>new_DrawingTreeNode_code\<close> and
  \<open>constructEach_code\<close> below give them back in the source's form.
\<close>

fun new_DrawingTreeNode :: "backing \<Rightarrow> world \<Rightarrow> DrawingTreeNode \<times> world"
  and constructEach :: "bool \<Rightarrow> backing list \<Rightarrow> world \<Rightarrow> DrawingTreeNode list \<times> world"
where
  "new_DrawingTreeNode (Backing i kids) w =
     (let w1 = w\<lparr>getChildrenCalls := getChildrenCalls w @ [i]\<rparr>;
          f = \<lparr>innerNode = Backing i kids, nodeChildren = kids, requiredWidth = - 1,
               representation = None, isExpanded = (length kids = 0),
               childBar = None, horizontalBar = None, parentBar = None,
               lastContainer = None, lastViewport = None\<rparr>;
          (f1, w2) = createRepresentation f w1
      in if drawingTreeNodeIsExpanded w2 i then
           (let (cs, w3) = constructEach False kids w2
            in (Node (f1\<lparr>isExpanded := True\<rparr>) cs, setExpandedSlot (Backing i kids) True w3))
         else (Node f1 [], w2))"
| "constructEach recurse [] w = ([], w)"
| "constructEach recurse (Backing i kids # xs) w =
     (let (node, w1) = new_DrawingTreeNode (Backing i kids) w;
          (node', w2) =
            (if recurse then
               (let (cs, w') = constructEach True kids w1
                in (Node ((attrs node)\<lparr>isExpanded := True\<rparr>) cs,
                    setExpandedSlot (Backing i kids) True w'))
             else (node, w1));
          (rest, w3) = constructEach recurse xs w2
      in (node' # rest, w3))"

definition expand :: "bool \<Rightarrow> DrawingTreeNode \<Rightarrow> world \<Rightarrow> DrawingTreeNode \<times> world" where
  "expand recurse n w =
     (let (cs, w') = constructEach recurse (nodeChildren (attrs n)) w
      in (Node ((attrs n)\<lparr>isExpanded := True\<rparr>) cs,
          setExpandedSlot (innerNode (attrs n)) True w'))"

text \<open>The three connectors are created on first use.\<close>

definition getChildBar :: "vfields \<Rightarrow> world \<Rightarrow> nat \<times> vfields \<times> world" where
  "getChildBar f w =
     (case childBar f of
        Some b \<Rightarrow> (b, f, w)
      | None \<Rightarrow>
          (let (b, w1) = createElement w
           in (b, f\<lparr>childBar := Some b\<rparr>, modify b (\<lambda>r. r\<lparr>className := ''vertical''\<rparr>) w1)))"

definition getHorizontalBar :: "vfields \<Rightarrow> world \<Rightarrow> nat \<times> vfields \<times> world" where
  "getHorizontalBar f w =
     (case horizontalBar f of
        Some b \<Rightarrow> (b, f, w)
      | None \<Rightarrow>
          (let (b, w1) = createElement w
           in (b, f\<lparr>horizontalBar := Some b\<rparr>,
               modify b (\<lambda>r. r\<lparr>className := ''horizontal''\<rparr>) w1)))"

definition getParentBar :: "vfields \<Rightarrow> world \<Rightarrow> nat \<times> vfields \<times> world" where
  "getParentBar f w =
     (case parentBar f of
        Some b \<Rightarrow> (b, f, w)
      | None \<Rightarrow>
          (let (b, w1) = createElement w
           in (b, f\<lparr>parentBar := Some b\<rparr>, modify b (\<lambda>r. r\<lparr>className := ''vertical''\<rparr>) w1)))"

text \<open>
  \<open>collapse\<close> in three parts around the recursion: \<open>remove\<close> is its local function,
  \<open>removeOwn\<close> lines 114 to 117, \<open>removeBars\<close> lines 118 and 119, \<open>resetCollapsed\<close> lines 122
  to 125. Reading \<open>parentNode\<close> of a \<open>null\<close> representation is a TypeError, the result
  \<open>None\<close>. The children are collapsed one after the other and then dropped.
\<close>

definition remove :: "nat \<Rightarrow> world \<Rightarrow> world" where
  "remove e w = (case parentNode (elems w e) of None \<Rightarrow> w | Some p \<Rightarrow> removeChild p e w)"

definition removeOwn :: "bool \<Rightarrow> vfields \<Rightarrow> world \<Rightarrow> (vfields \<times> world) option" where
  "removeOwn removeSelf f w =
     (if removeSelf then
        (case representation f of
           None \<Rightarrow> None
         | Some e \<Rightarrow>
             (let w1 = remove e w;
                  (pb, f1, w2) = getParentBar f w1
              in Some (f1, remove pb w2)))
      else Some (f, w))"

definition removeBars :: "vfields \<Rightarrow> world \<Rightarrow> vfields \<times> world" where
  "removeBars f w =
     (let (cb, f1, w1) = getChildBar f w;
          w2 = remove cb w1;
          (hb, f2, w3) = getHorizontalBar f1 w2
      in (f2, remove hb w3))"

definition resetCollapsed :: "vfields \<Rightarrow> world \<Rightarrow> DrawingTreeNode \<times> world" where
  "resetCollapsed f w =
     (let f1 = f\<lparr>requiredWidth := 0\<rparr>;
          f2 = f1\<lparr>isExpanded := (length (nodeChildren f1) = 0)\<rparr>
      in (Node f2 [], setExpandedSlot (innerNode f2) (isExpanded f2) w))"

fun collapse :: "bool \<Rightarrow> DrawingTreeNode \<Rightarrow> world \<Rightarrow> (DrawingTreeNode \<times> world) option"
  and collapseEach :: "DrawingTreeNode list \<Rightarrow> world \<Rightarrow> world option"
where
  "collapse removeSelf (Node f cs) w =
     (case removeOwn removeSelf f w of
        None \<Rightarrow> None
      | Some (f1, w1) \<Rightarrow>
          (case collapseEach cs (snd (removeBars f1 w1)) of
             None \<Rightarrow> None
           | Some w2 \<Rightarrow> Some (resetCollapsed (fst (removeBars f1 w1)) w2)))"
| "collapseEach [] w = Some w"
| "collapseEach (c # cs) w =
     (case collapse True c w of
        None \<Rightarrow> None
      | Some (c', w1) \<Rightarrow> collapseEach cs w1)"

section \<open>Renderer\<close>

text \<open>
  \<open>draw\<close> in four parts: \<open>placeElement\<close> is lines 189 to 199 (record container and
  origin, style and attach the representation), \<open>placeBars\<close> lines 203 to 223 (the widths,
  the child bar and the horizontal bar), \<open>placeParentBar\<close> lines 229 to 237 (one turn of the
  loop, up to the recursive call), and \<open>drawEach\<close> the loop. A \<open>null\<close> representation is a
  TypeError (\<open>None\<close>). The caller's viewport object is mutated, so \<open>draw\<close> returns it too; each
  child is drawn on a copy.
\<close>

lemma getRequiredWidth_size:
  "size (snd (getRequiredWidth n)) = size n"
  "size_list size (snd (sumWidths acc cs)) = size_list size cs"
  by (induction n and acc cs rule: getRequiredWidth_sumWidths.induct)
     (auto simp: Let_def split: prod.splits)

definition attach :: "nat \<Rightarrow> nat \<Rightarrow> world \<Rightarrow> world" where
  "attach container e w =
     (if parentNode (elems w e) \<noteq> Some container then appendChild container e w else w)"

definition placeElement :: "nat \<Rightarrow> viewport \<Rightarrow> vfields \<Rightarrow> world \<Rightarrow> (vfields \<times> world) option" where
  "placeElement container vp f w =
     (let f1 = f\<lparr>lastContainer := Some container,
                  lastViewport := Some \<lparr>vp_x = vp_x vp, vp_y = vp_y vp\<rparr>\<rparr>
      in case representation f1 of
           None \<Rightarrow> None
         | Some element \<Rightarrow>
             (let w1 = modify element
                         (\<lambda>r. r\<lparr>className := ''node'' @ (if isExpanded f1 then [] else '' collapsed''),
                                 style_left := Some (vp_x vp),
                                 style_top := Some (vp_y vp)\<rparr>) w
              in Some (f1, attach container element w1)))"

definition placeBars ::
  "nat \<Rightarrow> viewport \<Rightarrow> DrawingTreeNode \<Rightarrow> world \<Rightarrow> DrawingTreeNode \<times> world" where
  "placeBars container vp n w =
     (let cs = children n;
          (firstWidth, c0) = getRequiredWidth (cs ! 0);
          cs1 = cs[0 := c0];
          (lastWidth, cl) = getRequiredWidth (cs1 ! (length cs1 - 1));
          cs2 = cs1[length cs1 - 1 := cl];
          (totalWidth, n1) = getRequiredWidth (Node (attrs n) cs2);
          (vertical, f2, w1) = getChildBar (attrs n1) w;
          w2 = modify vertical
                 (\<lambda>r. r\<lparr>style_left := Some (vp_x vp + NODE_WIDTH / 2),
                         style_top := Some (vp_y vp + NODE_HEIGHT)\<rparr>) w1;
          w3 = attach container vertical w2;
          horizontalBarWidth = totalWidth - lastWidth;
          (horizontal, f3, w4) = getHorizontalBar f2 w3;
          w5 = modify horizontal
                 (\<lambda>r. r\<lparr>style_width := Some horizontalBarWidth,
                         style_left := Some (vp_x vp + NODE_WIDTH / 2),
                         style_top := Some (vp_y vp + NODE_HEIGHT + NODE_MARGIN_Y / 2)\<rparr>) w4
      in (Node f3 (children n1), attach container horizontal w5))"

definition placeParentBar ::
  "nat \<Rightarrow> viewport \<Rightarrow> DrawingTreeNode \<Rightarrow> world \<Rightarrow> number \<times> DrawingTreeNode \<times> world" where
  "placeParentBar container vp c w =
     (let (requiredWidth, c1) = getRequiredWidth c;
          (childVertical, f1, w1) = getParentBar (attrs c1) w;
          w2 = modify childVertical
                 (\<lambda>r. r\<lparr>style_left := Some (vp_x vp + NODE_WIDTH / 2),
                         style_top := Some (vp_y vp - NODE_MARGIN_Y / 2)\<rparr>) w1
      in (requiredWidth, Node f1 (children c1), attach container childVertical w2))"

lemma size_list_update:
  "i < length cs \<Longrightarrow> size c = size (cs ! i) \<Longrightarrow> size_list size (cs[i := c]) = size_list size cs"
  by (induction cs arbitrary: i) (auto split: nat.splits)

lemma getRequiredWidth_children_size:
  "size_list size (children (snd (getRequiredWidth n))) = size_list size (children n)"
  using getRequiredWidth_size(1)[of n] by (cases n; cases "snd (getRequiredWidth n)") simp

lemma placeBars_children:
  "children (fst (placeBars c vp n w)) =
     children (snd (getRequiredWidth (Node (attrs n)
       (let cs1 = (children n)[0 := snd (getRequiredWidth (children n ! 0))]
        in cs1[length cs1 - 1 := snd (getRequiredWidth (cs1 ! (length cs1 - 1)))]))))"
  by (simp add: placeBars_def Let_def split: prod.splits)

lemma placeBars_size:
  assumes "children n \<noteq> []"
  shows "size_list size (children (fst (placeBars c vp n w))) = size_list size (children n)"
proof -
  define cs where "cs = children n"
  define cs1 where "cs1 = cs[0 := snd (getRequiredWidth (cs ! 0))]"
  define cs2 where "cs2 = cs1[length cs1 - 1 := snd (getRequiredWidth (cs1 ! (length cs1 - 1)))]"
  have ne: "0 < length cs" using assms by (simp add: cs_def)
  have s1: "size_list size cs1 = size_list size cs"
    unfolding cs1_def using ne by (intro size_list_update) (simp_all add: getRequiredWidth_size)
  have "length cs1 - 1 < length cs1" using ne by (simp add: cs1_def)
  then have s2: "size_list size cs2 = size_list size cs1"
    unfolding cs2_def by (intro size_list_update) (simp_all add: getRequiredWidth_size)
  have "children (fst (placeBars c vp n w)) = children (snd (getRequiredWidth (Node (attrs n) cs2)))"
    by (simp add: placeBars_children cs2_def cs1_def cs_def Let_def)
  then show ?thesis
    using s1 s2 getRequiredWidth_children_size[of "Node (attrs n) cs2"] by (simp add: cs_def)
qed

lemma placeParentBar_size: "size (fst (snd (placeParentBar c vp n w))) = size n"
  using getRequiredWidth_size(1)[of n]
  by (cases "snd (getRequiredWidth n)") (auto simp: placeParentBar_def Let_def split: prod.splits)


lemma placeBars_size':
  "placeBars c vp (Node f cs) w = (n', w') \<Longrightarrow> cs \<noteq> [] \<Longrightarrow>
   size_list size (children n') = size_list size cs"
  using placeBars_size[of "Node f cs" c vp w] by simp

lemma placeParentBar_size':
  "placeParentBar c vp n w = (rw, n', w') \<Longrightarrow> size n' = size n"
  using placeParentBar_size[of c vp n w] by simp

function draw ::
    "nat \<Rightarrow> viewport \<Rightarrow> DrawingTreeNode \<Rightarrow> world \<Rightarrow> (DrawingTreeNode \<times> world \<times> viewport) option"
  and drawEach ::
    "nat \<Rightarrow> viewport \<Rightarrow> DrawingTreeNode list \<Rightarrow> world \<Rightarrow>
       (DrawingTreeNode list \<times> world \<times> viewport) option"
where
  "draw container vp (Node f cs) w =
     (case placeElement container vp f w of
        None \<Rightarrow> None
      | Some (f1, w1) \<Rightarrow>
          if length cs > 0 then
            (let (n2, w2) = placeBars container vp (Node f1 cs) w1;
                 vp1 = vp\<lparr>vp_y := vp_y vp + (NODE_HEIGHT + NODE_MARGIN_Y)\<rparr>
             in case drawEach container vp1 (children n2) w2 of
                  None \<Rightarrow> None
                | Some (cs', w3, vp2) \<Rightarrow> Some (Node (attrs n2) cs', w3, vp2))
          else Some (Node f1 cs, w1, vp))"
| "drawEach container vp [] w = Some ([], w, vp)"
| "drawEach container vp (c # cs) w =
     (let (requiredWidth, c1, w1) = placeParentBar container vp c w
      in case draw container \<lparr>vp_x = vp_x vp, vp_y = vp_y vp\<rparr> c1 w1 of
           None \<Rightarrow> None
         | Some (c2, w2, vp') \<Rightarrow>
             (case drawEach container (vp\<lparr>vp_x := vp_x vp + (requiredWidth + NODE_MARGIN_X)\<rparr>) cs w2 of
                None \<Rightarrow> None
              | Some (cs', w3, vp2) \<Rightarrow> Some (c2 # cs', w3, vp2)))"
  by pat_completeness auto
termination
  apply (relation "measure (\<lambda>a. case a of Inl (_, _, n, _) \<Rightarrow> 2 * size n | Inr (_, _, cs, _) \<Rightarrow> 2 * size_list size cs + 1)")
  apply simp
  subgoal for container vp f cs w x2 f1 w1 x n2 w2
    using placeBars_size'[of container vp f1 cs w1 n2 w2] by simp
  subgoal for container vp c cs w x rw y c1 w1
    using placeParentBar_size'[of container vp c w rw c1 w1] by (cases y) auto
  subgoal by simp
  done


text \<open>
  \<open>redraw\<close>: with \<open>lastViewport\<close> undefined, reading \<open>viewport.x\<close> is a TypeError. The path
  is that of the node \<open>redraw\<close> runs on, and is only recorded.
\<close>

definition redraw :: "nat list \<Rightarrow> DrawingTreeNode \<Rightarrow> world \<Rightarrow> (DrawingTreeNode \<times> world) option" where
  "redraw p n w =
     (case (lastContainer (attrs n), lastViewport (attrs n)) of
        (Some container, Some vp) \<Rightarrow>
          (case draw container vp n (w\<lparr>redrawCalls := redrawCalls w @ [p]\<rparr>) of
             None \<Rightarrow> None
           | Some (n', w', vp') \<Rightarrow> Some (n', w'))
      | _ \<Rightarrow> None)"

section \<open>Nodes inside the tree\<close>

text \<open>
  \<open>callAt p m tree w\<close> runs the method \<open>m\<close> on the node at path \<open>p\<close> of \<open>tree\<close> (a list of
  child indices, the root's first) and puts the changed node back in its place; there is
  no result when there is no such node.
\<close>

fun callAt ::
  "nat list \<Rightarrow> (DrawingTreeNode \<Rightarrow> world \<Rightarrow> (DrawingTreeNode \<times> world) option) \<Rightarrow>
     DrawingTreeNode \<Rightarrow> world \<Rightarrow> (DrawingTreeNode \<times> world) option"
where
  "callAt [] m n w = m n w"
| "callAt (i # p) m (Node f cs) w =
     (if i < length cs then
        (case callAt p m (cs ! i) w of
           None \<Rightarrow> None
         | Some (c, w') \<Rightarrow> Some (Node f (cs[i := c]), w'))
      else None)"

fun nodeAt :: "DrawingTreeNode \<Rightarrow> nat list \<Rightarrow> DrawingTreeNode option" where
  "nodeAt n [] = Some n"
| "nodeAt (Node f cs) (i # p) = (if i < length cs then nodeAt (cs ! i) p else None)"

definition markDirty :: "DrawingTreeNode \<Rightarrow> world \<Rightarrow> (DrawingTreeNode \<times> world) option" where
  "markDirty n w = Some (Node ((attrs n)\<lparr>requiredWidth := - 1\<rparr>) (children n), w)"

text \<open>
  \<open>invalidate\<close> on the node at path \<open>p\<close>: that node has a parent exactly when \<open>p\<close> is not
  empty, and the parent is the node at \<open>butlast p\<close>.
\<close>

function invalidate :: "nat list \<Rightarrow> DrawingTreeNode \<Rightarrow> world \<Rightarrow> (DrawingTreeNode \<times> world) option" where
  "invalidate p tree w =
     (case callAt p markDirty tree w of
        None \<Rightarrow> None
      | Some (tree1, w1) \<Rightarrow>
          if p \<noteq> [] then invalidate (butlast p) tree1 w1
          else callAt p (redraw p) tree1 w1)"
  by pat_completeness auto
termination
  by (relation "measure (\<lambda>(p, tree, w). length p)") auto

text \<open>
  The \<open>click\<close> listener of the representation of the node at path \<open>p\<close> (lines 47 to 58,
  without the timing it logs): a collapsed node is expanded, recursively when the control
  key is held, and an expanded one is collapsed when the control key is held; both are
  followed by \<open>invalidate\<close>.
\<close>

definition click ::
  "bool \<Rightarrow> nat list \<Rightarrow> DrawingTreeNode \<Rightarrow> world \<Rightarrow> (DrawingTreeNode \<times> world) option" where
  "click ctrlKey p tree w =
     (case nodeAt tree p of
        None \<Rightarrow> None
      | Some that \<Rightarrow>
          if \<not> isExpanded (attrs that) then
            (case callAt p (\<lambda>n w. Some (expand ctrlKey n w)) tree w of
               None \<Rightarrow> None
             | Some (tree1, w1) \<Rightarrow> invalidate p tree1 w1)
          else if ctrlKey then
            (case callAt p (collapse False) tree w of
               None \<Rightarrow> None
             | Some (tree1, w1) \<Rightarrow> invalidate p tree1 w1)
          else Some (tree, w))"

section \<open>Asynchronous refresh\<close>

text \<open>
  \<open>updateRepresentation\<close> on the node at path \<open>p\<close>. The closure \<open>work\<close> is handed to
  \<open>setImmediate\<close> or \<open>setTimeout\<close>, neither of which runs it before returning; it is recorded
  in \<open>pendingWork\<close> under the path of the node it captured.
\<close>

definition updateRepresentation :: "nat list \<Rightarrow> DrawingTreeNode \<Rightarrow> world \<Rightarrow> DrawingTreeNode \<times> world" where
  "updateRepresentation p n w =
     (let (f', w') =
            (case representation (attrs n) of
               None \<Rightarrow> (attrs n, w)
             | Some old \<Rightarrow>
                 (case parentNode (elems w old) of
                    None \<Rightarrow> (attrs n, w)
                  | Some parent \<Rightarrow>
                      (let styles = (className (elems w old), style_left (elems w old),
                                     style_top (elems w old));
                           w1 = removeChild parent old w;
                           f1 = (attrs n)\<lparr>representation := None\<rparr>;
                           (f2, w2) = createRepresentation f1 w1
                       in case representation f2 of
                            None \<Rightarrow> (f2, w2)
                          | Some new \<Rightarrow>
                              (f2, modify new
                                     (\<lambda>r. r\<lparr>className := fst styles,
                                             style_left := fst (snd styles),
                                             style_top := snd (snd styles)\<rparr>)
                                     (appendChild parent new w2)))))
      in (Node f' (children n), w'\<lparr>pendingWork := pendingWork w' @ [p]\<rparr>))"

section \<open>Entry point\<close>

text \<open>
  \<open>BuildTree\<close>: emptying \<open>innerHTML\<close> detaches the container's children; the root is
  constructed without a parent and drawn at the origin.
\<close>

definition BuildTree :: "nat \<Rightarrow> backing \<Rightarrow> world \<Rightarrow> (DrawingTreeNode \<times> world) option" where
  "BuildTree container rootNode w =
     (let w1 = (fold (\<lambda>k. modify k (\<lambda>r. r\<lparr>parentNode := None\<rparr>)) (childNodes w container) w)
                 \<lparr>childNodes := (childNodes w)(container := [])\<rparr>;
          w2 = modify container (\<lambda>r. r\<lparr>className := ''node-container''\<rparr>) w1;
          (drawingRoot, w3) = new_DrawingTreeNode rootNode w2
      in case draw container \<lparr>vp_x = 0, vp_y = 0\<rparr> drawingRoot w3 of
           None \<Rightarrow> None
         | Some (drawingRoot', w4, vp) \<Rightarrow> Some (drawingRoot', w4))"

section \<open>Required widths\<close>

lemma sumWidths_eq:
  "sumWidths acc cs =
     (acc + sum_list (map (\<lambda>c. fst (getRequiredWidth c)) cs), map (\<lambda>c. snd (getRequiredWidth c)) cs)"
  by (induction cs arbitrary: acc) (simp_all add: split_beta Let_def add.assoc)

definition leafFields :: "nat \<Rightarrow> nat \<Rightarrow> vfields" where
  "leafFields i e =
     \<lparr>innerNode = Backing i [], nodeChildren = [], requiredWidth = - 1,
      representation = Some e, isExpanded = True,
      childBar = None, horizontalBar = None, parentBar = None,
      lastContainer = None, lastViewport = None\<rparr>"

text \<open>
  Claim C1. A node whose cached width is dirty (\<open>- 1\<close>) gets as required width the
  minimum node width when it has no children, and otherwise the larger of the minimum node
  width and the sum of its children's required widths plus one horizontal margin between
  each two neighbours. The result is cached: the field holds it, and a second call returns
  it without changing the node.
\<close>

theorem getRequiredWidth_dirty:
  assumes "requiredWidth f = - 1"
  shows "fst (getRequiredWidth (Node f cs)) =
           (if cs = [] then NODE_WIDTH
            else max NODE_WIDTH
                   (sum_list (map (\<lambda>c. fst (getRequiredWidth c)) cs)
                      + (of_nat (length cs) - 1) * NODE_MARGIN_X))
         \<and> requiredWidth (attrs (snd (getRequiredWidth (Node f cs)))) = fst (getRequiredWidth (Node f cs))
         \<and> getRequiredWidth (snd (getRequiredWidth (Node f cs))) =
             (fst (getRequiredWidth (Node f cs)), snd (getRequiredWidth (Node f cs)))"
  using assms
  by (auto simp: sumWidths_eq Let_def NODE_WIDTH_def NODE_MARGIN_X_def max_def mult.commute)

definition twoLeaves :: DrawingTreeNode where
  "twoLeaves =
     Node ((leafFields 0 0)\<lparr>innerNode := Backing 0 [Backing 1 [], Backing 2 []],
                             nodeChildren := [Backing 1 [], Backing 2 []]\<rparr>)
       [Node (leafFields 1 2) [], Node (leafFields 2 4) []]"

theorem getRequiredWidth_dirty_witness:
  "requiredWidth (attrs twoLeaves) = - 1 \<and> fst (getRequiredWidth twoLeaves) = 160
   \<and> requiredWidth (attrs (snd (getRequiredWidth twoLeaves))) = 160"
  using getRequiredWidth_dirty[of "attrs twoLeaves" "children twoLeaves"]
  by (simp add: twoLeaves_def leafFields_def NODE_WIDTH_def NODE_MARGIN_X_def)


section \<open>Construction and expansion\<close>

lemma createRepresentation_attrs:
  "fst (createRepresentation f w) = f\<lparr>representation := Some (nextId w)\<rparr>"
  by (simp add: createRepresentation_def backing_createRepresentation_def createElement_def
      Let_def split_beta)

lemma createRepresentation_world [simp]:
  "drawingTreeNodeIsExpanded (snd (createRepresentation f w)) = drawingTreeNodeIsExpanded w"
  "getChildrenCalls (snd (createRepresentation f w)) = getChildrenCalls w"
  "pendingWork (snd (createRepresentation f w)) = pendingWork w"
  "redrawCalls (snd (createRepresentation f w)) = redrawCalls w"
  "nextId (snd (createRepresentation f w)) = Suc (Suc (nextId w))"
  by (simp_all add: createRepresentation_def backing_createRepresentation_def createElement_def
      appendChild_def removeChild_def modify_def Let_def split_beta split: option.splits)

lemma createRepresentation_old:
  "e < nextId w \<Longrightarrow> elems (snd (createRepresentation f w)) e = elems w e"
  "e < nextId w \<Longrightarrow> childNodes (snd (createRepresentation f w)) e = childNodes w e"
  by (simp_all add: createRepresentation_def backing_createRepresentation_def createElement_def
      appendChild_def removeChild_def modify_def blank_def Let_def split_beta split: option.splits)

lemma setExpandedSlot_world [simp]:
  "elems (setExpandedSlot b v w) = elems w"
  "childNodes (setExpandedSlot b v w) = childNodes w"
  "nextId (setExpandedSlot b v w) = nextId w"
  "getChildrenCalls (setExpandedSlot b v w) = getChildrenCalls w"
  "pendingWork (setExpandedSlot b v w) = pendingWork w"
  "redrawCalls (setExpandedSlot b v w) = redrawCalls w"
  "drawingTreeNodeIsExpanded (setExpandedSlot b v w) = (drawingTreeNodeIsExpanded w)(bid b := v)"
  by (simp_all add: setExpandedSlot_def)

definition freshFields :: "backing \<Rightarrow> vfields" where
  "freshFields b =
     \<lparr>innerNode = b, nodeChildren = getChildren b, requiredWidth = - 1,
      representation = None, isExpanded = (length (getChildren b) = 0),
      childBar = None, horizontalBar = None, parentBar = None,
      lastContainer = None, lastViewport = None\<rparr>"

lemma new_DrawingTreeNode_attrs:
  "attrs (fst (new_DrawingTreeNode b w)) =
     (freshFields b)\<lparr>representation := Some (nextId w),
                      isExpanded := (getChildren b = [] \<or> drawingTreeNodeIsExpanded w (bid b))\<rparr>"
  by (cases b) (auto simp: Let_def split_beta createRepresentation_attrs freshFields_def)

lemma new_DrawingTreeNode_code:
  "new_DrawingTreeNode node w =
     (let w1 = w\<lparr>getChildrenCalls := getChildrenCalls w @ [bid node]\<rparr>;
          f = \<lparr>innerNode = node, nodeChildren = getChildren node, requiredWidth = - 1,
               representation = None, isExpanded = (length (getChildren node) = 0),
               childBar = None, horizontalBar = None, parentBar = None,
               lastContainer = None, lastViewport = None\<rparr>;
          (f1, w2) = createRepresentation f w1
      in if drawingTreeNodeIsExpanded w2 (bid (innerNode f1)) then expand False (Node f1 []) w2
         else (Node f1 [], w2))"
  by (cases node) (simp add: Let_def split_beta expand_def createRepresentation_attrs)

lemma constructEach_code:
  "constructEach recurse (x # xs) w =
     (let (node, w1) = new_DrawingTreeNode x w;
          (node', w2) = (if recurse then expand True node w1 else (node, w1));
          (rest, w3) = constructEach recurse xs w2
      in (node' # rest, w3))"
  by (cases x) (simp add: Let_def split_beta expand_def new_DrawingTreeNode_attrs freshFields_def del: new_DrawingTreeNode.simps)


lemma constructEach_length: "length (fst (constructEach r xs w)) = length xs"
  by (induction xs arbitrary: w) (simp_all add: constructEach_code split_beta Let_def del: constructEach.simps(2))

lemma expand_attrs: "attrs (fst (expand r n w)) = (attrs n)\<lparr>isExpanded := True\<rparr>"
  by (simp add: expand_def split_beta)

lemma constructEach_innerNode:
  "map (\<lambda>c. innerNode (attrs c)) (fst (constructEach r xs w)) = xs"
  by (induction xs arbitrary: w)
     (simp_all add: constructEach_code split_beta Let_def expand_attrs new_DrawingTreeNode_attrs freshFields_def
        del: constructEach.simps(2))


section \<open>Invariants of the tree\<close>

text \<open>
  \<open>everyNode P t\<close>: all nodes of \<open>t\<close> have fields satisfying \<open>P\<close>. \<open>strip\<close> forgets what
  layout and drawing write (the cached width, the connectors, the last container and
  viewport). \<open>reachable\<close> are the trees, with their worlds, that arise from a constructor
  call by drawing the root and by \<open>expand\<close>, \<open>collapse\<close> and \<open>invalidate\<close> on any node.
\<close>

fun everyNode :: "(vfields \<Rightarrow> bool) \<Rightarrow> DrawingTreeNode \<Rightarrow> bool" where
  "everyNode P (Node f cs) = (P f \<and> (\<forall>c \<in> set cs. everyNode P c))"

definition leafDefault :: "vfields \<Rightarrow> bool" where
  "leafDefault f = (\<not> isExpanded f \<longrightarrow> nodeChildren f \<noteq> [])"

fun strip :: "DrawingTreeNode \<Rightarrow> DrawingTreeNode" where
  "strip (Node f cs) =
     Node (f\<lparr>requiredWidth := 0, childBar := None, horizontalBar := None, parentBar := None,
             lastContainer := None, lastViewport := None\<rparr>) (map strip cs)"

inductive reachable :: "DrawingTreeNode \<times> world \<Rightarrow> bool" where
  constructed: "reachable (new_DrawingTreeNode b w)"
| drawn: "reachable (t, w) \<Longrightarrow> draw container vp t w = Some (t', w', vp') \<Longrightarrow> reachable (t', w')"
| expanded: "reachable (t, w) \<Longrightarrow> callAt p (\<lambda>n w. Some (expand recurse n w)) t w = Some s \<Longrightarrow> reachable s"
| collapsed: "reachable (t, w) \<Longrightarrow> callAt p (collapse removeSelf) t w = Some s \<Longrightarrow> reachable s"
| invalidated: "reachable (t, w) \<Longrightarrow> invalidate p t w = Some s \<Longrightarrow> reachable s"

lemma everyNode_nodeAt:
  "everyNode P t \<Longrightarrow> nodeAt t p = Some n \<Longrightarrow> P (attrs n)"
proof (induction t p rule: nodeAt.induct)
  case (1 n)
  then show ?case by (cases n) auto
next
  case (2 f cs i p)
  then show ?case by (auto split: if_splits)
qed

lemma everyNode_callAt:
  assumes m: "\<And>n w n' w'. m n w = Some (n', w') \<Longrightarrow> everyNode P n \<Longrightarrow> everyNode P n'"
  shows "callAt p m t w = Some (t', w') \<Longrightarrow> everyNode P t \<Longrightarrow> everyNode P t'"
proof (induction p arbitrary: t t' w')
  case Nil
  then show ?case by (auto intro: m)
next
  case (Cons i p)
  obtain f cs where t: "t = Node f cs" by (cases t)
  from Cons.prems(1) t obtain c w1 where i: "i < length cs"
    and c: "callAt p m (cs ! i) w = Some (c, w1)" and t': "t' = Node f (cs[i := c])"
    by (auto split: if_splits option.splits)
  have "everyNode P (cs ! i)" using Cons.prems(2) i t by simp
  then have "everyNode P c" using Cons.IH[OF c] by simp
  then show ?case using Cons.prems(2) t t' by (auto dest: set_update_subset_insert[THEN subsetD])
qed

lemma backing_induct [case_names new nil cons]:
  assumes new: "\<And>i kids. Q kids \<Longrightarrow> P (Backing i kids)"
    and nil: "Q []"
    and cons: "\<And>i kids xs. P (Backing i kids) \<Longrightarrow> Q kids \<Longrightarrow> Q xs \<Longrightarrow> Q (Backing i kids # xs)"
  shows "P b" and "Q xs"
proof -
  have list: "Q ks" if "\<And>k. k \<in> set ks \<Longrightarrow> P k \<and> Q (getChildren k)" for ks
    using that
  proof (induction ks)
    case Nil
    show ?case by (rule nil)
  next
    case (Cons k ks)
    obtain i kids where k: "k = Backing i kids" by (cases k)
    have "P k \<and> Q (getChildren k)" using Cons.prems by simp
    moreover have "Q ks" using Cons by simp
    ultimately show ?case using cons k by simp
  qed
  have both: "P b \<and> Q (getChildren b)" for b
  proof (induction b)
    case (Backing i kids)
    have "Q kids" using Backing by (intro list) simp
    then show ?case using new by simp
  qed
  show "P b" using both by simp
  show "Q xs" using both by (intro list) simp
qed

lemma leafDefault_new:
  "\<forall>w. everyNode leafDefault (fst (new_DrawingTreeNode b w))"
  "\<forall>r w. \<forall>c \<in> set (fst (constructEach r xs w)). everyNode leafDefault c"
  by (induction b and xs rule: backing_induct)
     (auto simp: Let_def split_beta leafDefault_def createRepresentation_attrs)

lemma leafDefault_expand: "everyNode leafDefault (fst (expand r n w))"
  using leafDefault_new(2)[of "nodeChildren (attrs n)"]
  by (simp add: expand_def split_beta leafDefault_def)

lemma leafDefault_collapse:
  "collapse r n w = Some (n', w') \<Longrightarrow> everyNode leafDefault n'"
  by (cases n) (auto simp: Let_def leafDefault_def resetCollapsed_def split: option.splits)


lemma getRequiredWidth_unfold:
  "getRequiredWidth (Node f cs) =
     (if requiredWidth f = - 1 then
        (let w0 = sum_list (map (\<lambda>c. fst (getRequiredWidth c)) cs);
             w1 = (if length cs > 0 then w0 + NODE_MARGIN_X * (of_nat (length cs) - 1) else w0);
             w2 = (if w1 < NODE_WIDTH then NODE_WIDTH else w1)
         in (w2, Node (f\<lparr>requiredWidth := w2\<rparr>) (map (\<lambda>c. snd (getRequiredWidth c)) cs)))
      else (requiredWidth f, Node f cs))"
  by (simp add: sumWidths_eq Let_def)

lemma strip_getRequiredWidth: "strip (snd (getRequiredWidth n)) = strip n"
  by (induction n) (simp add: getRequiredWidth_unfold Let_def del: getRequiredWidth.simps)

lemma strip_eq_attrs: "strip (Node f cs) = strip (Node f' cs') \<longleftrightarrow>
   f\<lparr>requiredWidth := 0, childBar := None, horizontalBar := None, parentBar := None,
             lastContainer := None, lastViewport := None\<rparr> = f'\<lparr>requiredWidth := 0, childBar := None, horizontalBar := None, parentBar := None,
             lastContainer := None, lastViewport := None\<rparr> \<and> map strip cs = map strip cs'"
  by simp

lemma strip_children: "strip n = strip n' \<Longrightarrow> map strip (children n) = map strip (children n')"
  by (cases n; cases n') simp

lemma strip_node: "strip (Node (attrs n) (children n)) = strip n"
  by (cases n) simp

lemma map_strip_update:
  "strip c = strip (cs ! i) \<Longrightarrow> map strip (cs[i := c]) = map strip cs"
  by (cases "i < length cs") (simp_all add: map_update list_update_same_conv list_update_beyond)

lemma getBar_attrs:
  "fst (snd (getChildBar f w)) = f\<lparr>childBar := Some (fst (getChildBar f w))\<rparr>"
  "fst (snd (getHorizontalBar f w)) = f\<lparr>horizontalBar := Some (fst (getHorizontalBar f w))\<rparr>"
  "fst (snd (getParentBar f w)) = f\<lparr>parentBar := Some (fst (getParentBar f w))\<rparr>"
  by (auto simp: getChildBar_def getHorizontalBar_def getParentBar_def split_beta split: option.splits)

lemma strip_placeElement:
  "placeElement c vp f w = Some (f1, w1) \<Longrightarrow> strip (Node f1 cs) = strip (Node f cs)"
  by (auto simp: placeElement_def Let_def split: option.splits)

lemma strip_placeBars: "strip (fst (placeBars c vp n w)) = strip n"
proof -
  define cs1 where "cs1 = (children n)[0 := snd (getRequiredWidth (children n ! 0))]"
  define cs2 where "cs2 = cs1[length cs1 - 1 := snd (getRequiredWidth (cs1 ! (length cs1 - 1)))]"
  define n1 where "n1 = snd (getRequiredWidth (Node (attrs n) cs2))"
  have 1: "map strip cs1 = map strip (children n)"
    unfolding cs1_def by (rule map_strip_update) (simp add: strip_getRequiredWidth)
  have 2: "map strip cs2 = map strip cs1"
    unfolding cs2_def by (rule map_strip_update) (simp add: strip_getRequiredWidth)
  have 3: "strip n1 = strip n"
    unfolding n1_def using 1 2 by (cases n) (simp add: strip_getRequiredWidth del: getRequiredWidth.simps)
  have "fst (placeBars c vp n w) =
     Node (fst (snd (getHorizontalBar (fst (snd (getChildBar (attrs n1) w))) 
        (attach c (fst (getChildBar (attrs n1) w)) (modify (fst (getChildBar (attrs n1) w))
                 (\<lambda>r. r\<lparr>style_left := Some (vp_x vp + NODE_WIDTH / 2),
                         style_top := Some (vp_y vp + NODE_HEIGHT)\<rparr>) (snd (snd (getChildBar (attrs n1) w)))))))) (children n1)"
    by (simp add: placeBars_def Let_def split_beta n1_def cs2_def cs1_def)
  then show ?thesis using 3 by (cases n1; cases n) (simp add: getBar_attrs)
qed

lemma strip_placeParentBar: "strip (fst (snd (placeParentBar c vp n w))) = strip n"
  using strip_getRequiredWidth[of n]
  by (cases "snd (getRequiredWidth n)"; cases n)
     (simp add: placeParentBar_def Let_def split_beta getBar_attrs del: getRequiredWidth.simps)

lemma strip_draw:
  "draw c vp n w = Some (n', w', vp') \<Longrightarrow> strip n' = strip n"
  "drawEach c vp cs w = Some (cs', w', vp') \<Longrightarrow> map strip cs' = map strip cs"
proof (induction c vp n w and c vp cs w arbitrary: n' w' vp' and cs' w' vp' rule: draw_drawEach.induct)
  case (1 container vp f cs w)
  from "1.prems" obtain f1 w1 where pe: "placeElement container vp f w = Some (f1, w1)"
    by (auto split: option.splits)
  show ?case
  proof (cases "0 < length cs")
    case False
    then show ?thesis using "1.prems" pe strip_placeElement[OF pe] by auto
  next
    case True
    obtain n2 w2 where pb: "placeBars container vp (Node f1 cs) w1 = (n2, w2)" by fastforce
    from "1.prems" pe True pb obtain cs3 where
      de: "drawEach container (vp\<lparr>vp_y := vp_y vp + (NODE_HEIGHT + NODE_MARGIN_Y)\<rparr>) (children n2) w2 = Some (cs3, w', vp')"
      and n': "n' = Node (attrs n2) cs3"
      by (auto simp: Let_def split: option.splits)
    have "map strip cs3 = map strip (children n2)"
      using "1.IH"[OF pe refl True refl pb[symmetric] refl de] .
    then have "strip n' = strip n2" using n' by (cases n2) simp
    also have "\<dots> = strip (Node f1 cs)" using strip_placeBars[of container vp "Node f1 cs" w1] pb by simp
    also have "\<dots> = strip (Node f cs)" by (rule strip_placeElement[OF pe])
    finally show ?thesis .
  qed
next
  case (2 container vp w)
  then show ?case by simp
next
  case (3 container vp c cs w)
  obtain rw c1 w1 where pp: "placeParentBar container vp c w = (rw, c1, w1)"
    by (metis prod_cases3)
  from "3.prems" pp obtain c2 w2 vpc cs3 where
    d: "draw container \<lparr>vp_x = vp_x vp, vp_y = vp_y vp\<rparr> c1 w1 = Some (c2, w2, vpc)"
    and de: "drawEach container (vp\<lparr>vp_x := vp_x vp + (rw + NODE_MARGIN_X)\<rparr>) cs w2 = Some (cs3, w', vp')"
    and cs': "cs' = c2 # cs3"
    by (auto simp: Let_def split: option.splits)
  have "strip c2 = strip c1" using "3.IH"(1)[OF refl pp[symmetric] refl d] .
  moreover have "strip c1 = strip c" using strip_placeParentBar[of container vp c w] pp by simp
  moreover have "map strip cs3 = map strip cs" using "3.IH"(2)[OF refl pp[symmetric] refl d refl refl de] .
  ultimately show ?case using cs' by simp
qed


definition hostWorld :: world where
  "hostWorld = \<lparr>elems = (\<lambda>e. blank), childNodes = (\<lambda>e. []), nextId = 1,
                 drawingTreeNodeIsExpanded = (\<lambda>b. False), getChildrenCalls = [],
                 pendingWork = [], redrawCalls = []\<rparr>"

lemma leafDefault_strip: "everyNode leafDefault (strip n) = everyNode leafDefault n"
  by (induction n) (simp add: leafDefault_def)

lemma leafDefault_draw:
  "draw c vp n w = Some (n', w', vp') \<Longrightarrow> everyNode leafDefault n \<Longrightarrow> everyNode leafDefault n'"
  using strip_draw(1)[of c vp n w n' w' vp'] leafDefault_strip[of n] leafDefault_strip[of n'] by simp

lemma leafDefault_markDirty:
  "markDirty n w = Some (n', w') \<Longrightarrow> everyNode leafDefault n \<Longrightarrow> everyNode leafDefault n'"
  by (cases n) (auto simp: markDirty_def leafDefault_def)

lemma leafDefault_redraw:
  "redraw p n w = Some (n', w') \<Longrightarrow> everyNode leafDefault n \<Longrightarrow> everyNode leafDefault n'"
  by (auto simp: redraw_def split: option.splits dest: leafDefault_draw)

lemma everyNode_invalidate:
  assumes md: "\<And>n w n' w'. markDirty n w = Some (n', w') \<Longrightarrow> everyNode P n \<Longrightarrow> everyNode P n'"
    and rd: "\<And>p n w n' w'. redraw p n w = Some (n', w') \<Longrightarrow> everyNode P n \<Longrightarrow> everyNode P n'"
  shows "invalidate p t w = Some (t', w') \<Longrightarrow> everyNode P t \<Longrightarrow> everyNode P t'"
proof (induction p t w rule: invalidate.induct)
  case (1 p tree w)
  from "1.prems"(1) obtain t1 w1 where c: "callAt p markDirty tree w = Some (t1, w1)"
    by (auto split: option.splits)
  have t1: "everyNode P t1"
    using everyNode_callAt[of markDirty P p tree w t1 w1] md c "1.prems"(2) by blast
  show ?case
  proof (cases "p = []")
    case True
    then have "callAt p (redraw p) t1 w1 = Some (t', w')" using "1.prems"(1) c by simp
    then show ?thesis
      using everyNode_callAt[of "redraw p" P p t1 w1 t' w'] rd t1 by blast
  next
    case False
    then have "invalidate (butlast p) t1 w1 = Some (t', w')" using "1.prems"(1) c by simp
    then show ?thesis using "1.IH"[OF c refl False _ t1] by simp
  qed
qed

lemma leafDefault_invalidate:
  "invalidate p t w = Some (t', w') \<Longrightarrow> everyNode leafDefault t \<Longrightarrow> everyNode leafDefault t'"
  using everyNode_invalidate[of leafDefault p t w t' w'] leafDefault_markDirty leafDefault_redraw
  by blast

lemma reachable_leafDefault: "reachable s \<Longrightarrow> everyNode leafDefault (fst s)"
proof (induction rule: reachable.induct)
  case (constructed b w)
  then show ?case using leafDefault_new(1) by simp
next
  case (drawn t w container vp t' w' vp')
  then show ?case using leafDefault_draw by simp
next
  case (expanded t w p recurse s)
  have "everyNode leafDefault (fst s)"
    using everyNode_callAt[of "\<lambda>n w. Some (expand recurse n w)" leafDefault p t w "fst s" "snd s"]
      expanded leafDefault_expand by (metis fst_conv option.inject prod.collapse)
  then show ?case .
next
  case (collapsed t w p removeSelf s)
  then show ?case
    using everyNode_callAt[of "collapse removeSelf" leafDefault p t w "fst s" "snd s"]
      leafDefault_collapse by (metis fst_conv prod.collapse)
next
  case (invalidated t w p s)
  then show ?case using leafDefault_invalidate[of p t w "fst s" "snd s"] by simp
qed

text \<open>
  Claim C5. In every state reachable by construction, expand and collapse (and drawing and
  invalidation), a node's \<open>isExpanded\<close> flag is false only if its snapshot of backing
  children is not empty; a node with an empty snapshot is expanded.
\<close>

theorem isExpanded_false_only_with_snapshot:
  assumes "reachable (t, w)" and "nodeAt t p = Some n"
  shows "(\<not> isExpanded (attrs n) \<longrightarrow> nodeChildren (attrs n) \<noteq> [])
         \<and> (nodeChildren (attrs n) = [] \<longrightarrow> isExpanded (attrs n))"
  using reachable_leafDefault[OF assms(1)] everyNode_nodeAt[OF _ assms(2), of leafDefault]
  by (auto simp: leafDefault_def)


section \<open>What construction leaves alone\<close>

text \<open>
  \<open>extends w w'\<close>: every element that exists in \<open>w\<close> is in \<open>w'\<close> what it was in \<open>w\<close>, with the
  same child list. \<open>createdIn w w' c\<close>: the representation of node \<open>c\<close> was created after \<open>w\<close>
  and exists in \<open>w'\<close>.
\<close>

definition extends :: "world \<Rightarrow> world \<Rightarrow> bool" where
  "extends w w' =
     (nextId w \<le> nextId w' \<and>
      (\<forall>e < nextId w. elems w' e = elems w e \<and> childNodes w' e = childNodes w e))"

lemma extends_refl [simp]: "extends w w"
  by (simp add: extends_def)

lemma extends_trans: "extends w w1 \<Longrightarrow> extends w1 w2 \<Longrightarrow> extends w w2"
  by (auto simp: extends_def)

lemma extends_createRepresentation: "extends w (snd (createRepresentation f w))"
  by (simp add: extends_def createRepresentation_old)

lemma extends_setExpandedSlot [simp]: "extends w (setExpandedSlot b v w') = extends w w'"
  by (simp add: extends_def)

lemma extends_calls [simp]: "extends (w\<lparr>getChildrenCalls := x\<rparr>) w' = extends w w'"
  by (simp add: extends_def)

definition createdIn :: "world \<Rightarrow> world \<Rightarrow> DrawingTreeNode \<Rightarrow> bool" where
  "createdIn w w' c =
     (\<exists>e. representation (attrs c) = Some e \<and> nextId w \<le> e \<and> e < nextId w')"

lemma createdIn_mono:
  "createdIn w1 w2 c \<Longrightarrow> nextId w \<le> nextId w1 \<Longrightarrow> nextId w2 \<le> nextId w' \<Longrightarrow> createdIn w w' c"
  by (auto simp: createdIn_def)

lemma new_extends:
  "\<forall>w. extends w (snd (new_DrawingTreeNode b w)) \<and> nextId w < nextId (snd (new_DrawingTreeNode b w))"
  "\<forall>r w. extends w (snd (constructEach r xs w)) \<and>
          (\<forall>c \<in> set (fst (constructEach r xs w)). createdIn w (snd (constructEach r xs w)) c)"
proof (induction b and xs rule: backing_induct)
  case (new i kids)
  show ?case
  proof
    fix w :: world
    define f where "f = freshFields (Backing i kids)"
    define w1 where "w1 = w\<lparr>getChildrenCalls := getChildrenCalls w @ [i]\<rparr>"
    define w2 where "w2 = snd (createRepresentation f w1)"
    have e2: "extends w w2" using extends_createRepresentation[of w1 f] by (simp add: w2_def w1_def)
    have n2: "nextId w < nextId w2" by (simp add: w2_def w1_def)
    have res: "snd (new_DrawingTreeNode (Backing i kids) w) =
      (if drawingTreeNodeIsExpanded w2 i
       then setExpandedSlot (Backing i kids) True (snd (constructEach False kids w2)) else w2)"
      by (simp add: Let_def split_beta f_def w1_def w2_def freshFields_def)
    have "extends w2 (snd (constructEach False kids w2))" using new by simp
    then show "extends w (snd (new_DrawingTreeNode (Backing i kids) w)) \<and>
               nextId w < nextId (snd (new_DrawingTreeNode (Backing i kids) w))"
      unfolding res using e2 n2 by (auto intro: extends_trans simp: extends_def)
  qed
next
  case nil
  show ?case by simp
next
  case (cons i kids xs)
  show ?case
  proof (intro allI)
    fix r and w :: world
    define b where "b = Backing i kids"
    define node where "node = fst (new_DrawingTreeNode b w)"
    define w1 where "w1 = snd (new_DrawingTreeNode b w)"
    define w2 where "w2 = (if r then setExpandedSlot b True (snd (constructEach True kids w1)) else w1)"
    define node' where "node' = (if r then Node ((attrs node)\<lparr>isExpanded := True\<rparr>) (fst (constructEach True kids w1)) else node)"
    define w3 where "w3 = snd (constructEach r xs w2)"
    have res: "constructEach r (b # xs) w = (node' # fst (constructEach r xs w2), w3)"
      by (simp add: b_def node_def w1_def w2_def node'_def w3_def Let_def split_beta
          del: new_DrawingTreeNode.simps)
    have e1: "extends w w1" "nextId w < nextId w1" using cons(1) by (simp_all add: w1_def b_def)
    have e2: "extends w1 w2" using cons(2) by (simp add: w2_def)
    have e3: "extends w2 w3" using cons(3) by (simp add: w3_def)
    have rep: "representation (attrs node') = Some (nextId w)"
      by (simp add: node'_def node_def new_DrawingTreeNode_attrs del: new_DrawingTreeNode.simps)
    have le: "nextId w1 \<le> nextId w2" "nextId w2 \<le> nextId w3" using e2 e3 by (simp_all add: extends_def)
    have c1: "createdIn w w3 node'" using rep e1(2) le by (simp add: createdIn_def)
    have c2: "createdIn w w3 c" if "c \<in> set (fst (constructEach r xs w2))" for c
    proof -
      have "createdIn w2 w3 c" using cons(3) that by (simp add: w3_def)
      then show ?thesis using e1(2) le(1) by (auto simp: createdIn_def)
    qed
    show "extends w (snd (constructEach r (Backing i kids # xs) w)) \<and>
          (\<forall>c \<in> set (fst (constructEach r (Backing i kids # xs) w)).
             createdIn w (snd (constructEach r (Backing i kids # xs) w)) c)"
      using res e1(1) e2 e3 c1 c2 unfolding b_def[symmetric]
      by (auto intro: extends_trans)
  qed
qed


section \<open>Collapse\<close>

definition hasRepresentation :: "vfields \<Rightarrow> bool" where
  "hasRepresentation f = (representation f \<noteq> None)"

lemma remove_world [simp]:
  "nextId (remove e w) = nextId w"
  "drawingTreeNodeIsExpanded (remove e w) = drawingTreeNodeIsExpanded w"
  "getChildrenCalls (remove e w) = getChildrenCalls w"
  "pendingWork (remove e w) = pendingWork w"
  "redrawCalls (remove e w) = redrawCalls w"
  by (simp_all add: remove_def removeChild_def modify_def split: option.splits)

lemma getBar_world [simp]:
  "drawingTreeNodeIsExpanded (snd (snd (getChildBar f w))) = drawingTreeNodeIsExpanded w"
  "getChildrenCalls (snd (snd (getChildBar f w))) = getChildrenCalls w"
  "pendingWork (snd (snd (getChildBar f w))) = pendingWork w"
  "redrawCalls (snd (snd (getChildBar f w))) = redrawCalls w"
  "drawingTreeNodeIsExpanded (snd (snd (getHorizontalBar f w))) = drawingTreeNodeIsExpanded w"
  "getChildrenCalls (snd (snd (getHorizontalBar f w))) = getChildrenCalls w"
  "pendingWork (snd (snd (getHorizontalBar f w))) = pendingWork w"
  "redrawCalls (snd (snd (getHorizontalBar f w))) = redrawCalls w"
  "drawingTreeNodeIsExpanded (snd (snd (getParentBar f w))) = drawingTreeNodeIsExpanded w"
  "getChildrenCalls (snd (snd (getParentBar f w))) = getChildrenCalls w"
  "pendingWork (snd (snd (getParentBar f w))) = pendingWork w"
  "redrawCalls (snd (snd (getParentBar f w))) = redrawCalls w"
  by (simp_all add: getChildBar_def getHorizontalBar_def getParentBar_def createElement_def
      modify_def split_beta split: option.splits)

lemma getBar_nextId:
  "nextId w \<le> nextId (snd (snd (getChildBar f w)))"
  "nextId w \<le> nextId (snd (snd (getHorizontalBar f w)))"
  "nextId w \<le> nextId (snd (snd (getParentBar f w)))"
  by (simp_all add: getChildBar_def getHorizontalBar_def getParentBar_def createElement_def
      modify_def split_beta split: option.splits)

lemma removeOwn_fields:
  assumes "removeOwn r f w = Some (f1, w1)"
  shows "nodeChildren f1 = nodeChildren f" "innerNode f1 = innerNode f"
    "representation f1 = representation f" "isExpanded f1 = isExpanded f"
    "getChildrenCalls w1 = getChildrenCalls w" "nextId w \<le> nextId w1"
  using assms getBar_nextId(3)[of "remove (the (representation f)) w" f]
  by (auto simp: removeOwn_def Let_def split_beta getBar_attrs split: if_splits option.splits)

lemma removeBars_fields:
  "nodeChildren (fst (removeBars f w)) = nodeChildren f"
  "innerNode (fst (removeBars f w)) = innerNode f"
  "representation (fst (removeBars f w)) = representation f"
  "isExpanded (fst (removeBars f w)) = isExpanded f"
  "getChildrenCalls (snd (removeBars f w)) = getChildrenCalls w"
  by (simp_all add: removeBars_def Let_def split_beta getBar_attrs)

lemma removeBars_nextId: "nextId w \<le> nextId (snd (removeBars f w))"
  using getBar_nextId(1)[of w f]
    getBar_nextId(2)[of "remove (fst (getChildBar f w)) (snd (snd (getChildBar f w)))"
      "fst (snd (getChildBar f w))"]
  by (simp add: removeBars_def Let_def split_beta)

lemma collapse_result:
  assumes "collapse r n w = Some (n', w')"
  shows "children n' = []" and "requiredWidth (attrs n') = 0"
    and "nodeChildren (attrs n') = nodeChildren (attrs n)"
    and "innerNode (attrs n') = innerNode (attrs n)"
    and "representation (attrs n') = representation (attrs n)"
    and "isExpanded (attrs n') = (nodeChildren (attrs n) = [])"
  using assms
  by (cases n; auto simp: resetCollapsed_def Let_def removeBars_fields
      dest: removeOwn_fields split: option.splits)+

lemma collapse_calls:
  "collapse r n w = Some (n', w') \<Longrightarrow>
     getChildrenCalls w' = getChildrenCalls w \<and> nextId w \<le> nextId w'"
  "collapseEach cs w = Some w' \<Longrightarrow>
     getChildrenCalls w' = getChildrenCalls w \<and> nextId w \<le> nextId w'"
proof (induction r n w and cs w arbitrary: n' w' and w' rule: collapse_collapseEach.induct)
  case (1 removeSelf f cs w)
  from "1.prems" obtain f1 w1 w2 where a: "removeOwn removeSelf f w = Some (f1, w1)"
    and b: "collapseEach cs (snd (removeBars f1 w1)) = Some w2"
    and w': "w' = snd (resetCollapsed (fst (removeBars f1 w1)) w2)"
    by (auto split: option.splits)
  show ?case
    using removeOwn_fields(5,6)[OF a] removeBars_fields(5)[of f1 w1] removeBars_nextId[of w1 f1]
      "1.IH"[OF a refl b] w'
    by (simp add: resetCollapsed_def Let_def)
next
  case (2 w)
  then show ?case by simp
next
  case (3 c cs w)
  from "3.prems" obtain c' w1 where a: "collapse True c w = Some (c', w1)"
    and b: "collapseEach cs w1 = Some w'"
    by (auto split: option.splits)
  show ?case using "3.IH"(1)[OF a] "3.IH"(2)[OF a refl b] by simp
qed

lemma collapse_succeeds:
  "everyNode hasRepresentation n \<Longrightarrow> collapse r n w \<noteq> None"
  "\<forall>c \<in> set cs. everyNode hasRepresentation c \<Longrightarrow> collapseEach cs w \<noteq> None"
proof (induction r n w and cs w rule: collapse_collapseEach.induct)
  case (1 removeSelf f cs w)
  have "removeOwn removeSelf f w \<noteq> None"
    using "1.prems" by (auto simp: removeOwn_def hasRepresentation_def Let_def split_beta)
  then obtain f1 w1 where a: "removeOwn removeSelf f w = Some (f1, w1)" by auto
  have "collapseEach cs (snd (removeBars f1 w1)) \<noteq> None"
    using "1.IH"[OF a refl] "1.prems" by simp
  then show ?case using a by (auto split: option.splits)
next
  case (2 w)
  then show ?case by simp
next
  case (3 c cs w)
  from "3.prems" have "collapse True c w \<noteq> None" using "3.IH"(1) by simp
  then obtain c' w1 where a: "collapse True c w = Some (c', w1)" by auto
  show ?case using a "3.IH"(2)[OF a refl] "3.prems" by simp
qed

lemma collapse_children_only:
  assumes "\<forall>c \<in> set (children n). everyNode hasRepresentation c"
  shows "collapse False n w \<noteq> None"
proof -
  obtain f cs where n: "n = Node f cs" by (cases n)
  have "collapseEach cs (snd (removeBars f w)) \<noteq> None"
    using collapse_succeeds(2)[of cs] assms n by simp
  then show ?thesis using n by (auto simp: removeOwn_def split: option.splits)
qed


section \<open>Expanding again\<close>

text \<open>
  \<open>queries t\<close>: the backing nodes of the nodes of \<open>t\<close>, parents before children, left to
  right. \<open>untouched f\<close>: the fields are as the constructor sets them, no width cached, no
  connector created, never drawn.
\<close>

fun queries :: "DrawingTreeNode \<Rightarrow> nat list" where
  "queries (Node f cs) = bid (innerNode f) # concat (map queries cs)"

definition untouched :: "vfields \<Rightarrow> bool" where
  "untouched f =
     (requiredWidth f = - 1 \<and> childBar f = None \<and> horizontalBar f = None \<and>
      parentBar f = None \<and> lastContainer f = None \<and> lastViewport f = None)"

lemma new_queries:
  "\<forall>w. getChildrenCalls (snd (new_DrawingTreeNode b w)) =
          getChildrenCalls w @ queries (fst (new_DrawingTreeNode b w))"
  "\<forall>w. getChildrenCalls (snd (constructEach False xs w)) =
          getChildrenCalls w @ concat (map queries (fst (constructEach False xs w)))"
  by (induction b and xs rule: backing_induct)
     (simp_all add: Let_def split_beta createRepresentation_attrs)

lemma constructEach_untouched:
  "\<forall>c \<in> set (fst (constructEach r xs w)). untouched (attrs c)"
  by (induction xs arbitrary: w)
     (simp_all add: constructEach_code split_beta Let_def expand_attrs new_DrawingTreeNode_attrs
        freshFields_def untouched_def del: constructEach.simps(2))

definition sampleBacking :: backing where
  "sampleBacking = Backing 0 [Backing 1 [], Backing 2 []]"

definition sampleRoot :: "DrawingTreeNode \<times> world" where
  "sampleRoot = new_DrawingTreeNode sampleBacking hostWorld"

definition sampleExpanded :: "DrawingTreeNode \<times> world" where
  "sampleExpanded = expand False (fst sampleRoot) (snd sampleRoot)"

lemmas sample_defs = sampleExpanded_def sampleRoot_def sampleBacking_def hostWorld_def

lemma sampleExpanded_attrs:
  "attrs (fst sampleExpanded) =
     (freshFields sampleBacking)\<lparr>representation := Some 1, isExpanded := True\<rparr>"
  by (simp add: sample_defs expand_attrs new_DrawingTreeNode_attrs freshFields_def
      del: new_DrawingTreeNode.simps)

lemma sampleExpanded_children:
  "children (fst sampleExpanded) =
     [Node ((freshFields (Backing 1 []))\<lparr>representation := Some 3\<rparr>) [],
      Node ((freshFields (Backing 2 []))\<lparr>representation := Some 5\<rparr>) []]"
  by (simp add: sample_defs expand_def Let_def split_beta createRepresentation_attrs freshFields_def)

text \<open>
  Claim C8, as amended. \<open>expand\<close> assigns the \<open>children\<close> field: whatever the node held
  before, also when it was already expanded, it ends up with exactly one child per snapshot
  child, in snapshot order, each with a representation created during the call. Nothing
  that existed before the call is changed, so the earlier children are not collapsed and
  the elements they attached stay where they were.
\<close>

theorem expand_replaces_children:
  "map (\<lambda>c. innerNode (attrs c)) (children (fst (expand recurse n w))) = nodeChildren (attrs n)
   \<and> length (children (fst (expand recurse n w))) = length (nodeChildren (attrs n))
   \<and> (\<forall>c \<in> set (children (fst (expand recurse n w))).
         \<exists>e. representation (attrs c) = Some e \<and> nextId w \<le> e \<and> e < nextId (snd (expand recurse n w)))
   \<and> (\<forall>e < nextId w. elems (snd (expand recurse n w)) e = elems w e
                      \<and> childNodes (snd (expand recurse n w)) e = childNodes w e)"
  using new_extends(2)[of "nodeChildren (attrs n)"]
  by (simp add: expand_def split_beta constructEach_innerNode constructEach_length extends_def
      createdIn_def)

theorem expand_replaces_children_witness:
  "isExpanded (attrs (fst sampleExpanded))
   \<and> map (\<lambda>c. representation (attrs c)) (children (fst sampleExpanded)) = [Some 3, Some 5]
   \<and> nextId (snd sampleExpanded) = 7
   \<and> length (children (fst (expand False (fst sampleExpanded) (snd sampleExpanded)))) = 2
   \<and> map (\<lambda>c. representation (attrs c))
         (children (fst (expand False (fst sampleExpanded) (snd sampleExpanded)))) = [Some 7, Some 9]"
proof -
  note t = expand_replaces_children[of False "fst sampleExpanded" "snd sampleExpanded"]
  have a: "isExpanded (attrs (fst sampleExpanded))"
    and b: "nodeChildren (attrs (fst sampleExpanded)) = [Backing 1 [], Backing 2 []]"
    by (simp_all add: sampleExpanded_attrs freshFields_def sampleBacking_def)
  have c: "map (\<lambda>c. representation (attrs c)) (children (fst sampleExpanded)) = [Some 3, Some 5]"
    by (simp add: sampleExpanded_children)
  have d: "nextId (snd sampleExpanded) = 7"
    by (simp add: sample_defs expand_def Let_def split_beta createRepresentation_attrs)
  have e: "map (\<lambda>c. representation (attrs c))
         (children (fst (expand False (fst sampleExpanded) (snd sampleExpanded)))) = [Some 7, Some 9]"
    using b d by (simp add: expand_def Let_def split_beta createRepresentation_attrs)
  show ?thesis using t a b c d e by simp
qed

text \<open>
  Claim C8 as stated fails: a root with two snapshot children that is already expanded has
  two children after a second \<open>expand\<close>, not more than one per snapshot child.
\<close>

theorem expand_twice_counterexample:
  "isExpanded (attrs (fst sampleExpanded))
   \<and> length (nodeChildren (attrs (fst sampleExpanded))) = 2
   \<and> \<not> length (nodeChildren (attrs (fst sampleExpanded)))
         < length (children (fst (expand False (fst sampleExpanded) (snd sampleExpanded))))"
  by (simp add: sampleExpanded_attrs freshFields_def sampleBacking_def expand_def split_beta
      constructEach_length)


lemma getRequiredWidth_clean:
  "requiredWidth (attrs n) \<noteq> - 1 \<Longrightarrow> getRequiredWidth n = (requiredWidth (attrs n), n)"
  by (cases n) simp

lemma sampleExpanded_hasRepresentation:
  "\<forall>c \<in> set (children (fst sampleExpanded)). everyNode hasRepresentation c"
  by (simp add: sampleExpanded_children hasRepresentation_def)

text \<open>
  Claim C4 does not hold of the code: \<open>collapse\<close> stores \<open>0\<close> in \<open>requiredWidth\<close>, which is
  not the dirty value \<open>- 1\<close>, so the next \<open>getRequiredWidth\<close> returns the stored \<open>0\<close> instead of
  recomputing the width (\<open>NODE_WIDTH\<close> for the now empty child list). Here on an expanded
  root with two leaf children.
\<close>

theorem collapse_caches_zero:
  "\<exists>n w. collapse False (fst sampleExpanded) (snd sampleExpanded) = Some (n, w)
         \<and> requiredWidth (attrs n) = 0 \<and> requiredWidth (attrs n) \<noteq> - 1
         \<and> children n = [] \<and> fst (getRequiredWidth n) = 0 \<and> fst (getRequiredWidth n) < NODE_WIDTH"
proof -
  obtain n w where c: "collapse False (fst sampleExpanded) (snd sampleExpanded) = Some (n, w)"
    using collapse_children_only[OF sampleExpanded_hasRepresentation, of "snd sampleExpanded"] by auto
  have "requiredWidth (attrs n) = 0" "children n = []" using collapse_result[OF c] by simp_all
  then show ?thesis using c getRequiredWidth_clean[of n] by (simp add: NODE_WIDTH_def)
qed

text \<open>
  Claim C6. Let every child subtree of a node have its representations (as constructed
  nodes do). Then \<open>collapse()\<close> succeeds and leaves no children, and \<open>expand()\<close> after it
  yields one child per entry of the snapshot taken at construction, backed by the same
  backing nodes in the same order. Each child is as the constructor makes it: no cached
  width, no connector yet (a connector is created when first used), never drawn, and a
  representation created after the collapse began. The snapshot itself is kept, and the
  only calls of \<open>getChildren\<close> made are those of the constructors of the new nodes, one per
  new node on that node's backing node: the node's own backing node is not asked again.
\<close>

theorem collapse_then_expand:
  assumes "\<forall>c \<in> set (children n). everyNode hasRepresentation c"
  shows "\<exists>n1 w1. collapse False n w = Some (n1, w1) \<and> children n1 = [] \<and>
           (let (n2, w2) = expand False n1 w1 in
              map (\<lambda>c. innerNode (attrs c)) (children n2) = nodeChildren (attrs n)
              \<and> length (children n2) = length (nodeChildren (attrs n))
              \<and> nodeChildren (attrs n2) = nodeChildren (attrs n)
              \<and> (\<forall>c \<in> set (children n2).
                    untouched (attrs c) \<and>
                    (\<exists>e. representation (attrs c) = Some e \<and> nextId w \<le> e \<and> e < nextId w2))
              \<and> getChildrenCalls w2 = getChildrenCalls w @ concat (map queries (children n2)))"
proof -
  obtain n1 w1 where c: "collapse False n w = Some (n1, w1)"
    using collapse_children_only[OF assms, of w] by auto
  note r = collapse_result[OF c] collapse_calls(1)[OF c]
  obtain n2 w2 where e: "expand False n1 w1 = (n2, w2)" by fastforce
  have cs: "children n2 = fst (constructEach False (nodeChildren (attrs n)) w1)"
    and w2: "w2 = setExpandedSlot (innerNode (attrs n1)) True (snd (constructEach False (nodeChildren (attrs n)) w1))"
    and a2: "attrs n2 = (attrs n1)\<lparr>isExpanded := True\<rparr>"
    using e r(3) by (auto simp: expand_def split_beta)
  have fresh: "\<exists>e. representation (attrs c) = Some e \<and> nextId w \<le> e \<and> e < nextId w2"
    if "c \<in> set (children n2)" for c
    using new_extends(2)[of "nodeChildren (attrs n)"] that r(7) cs w2
    by (fastforce simp: createdIn_def)
  have "getChildrenCalls w2 = getChildrenCalls w @ concat (map queries (children n2))"
    using new_queries(2)[of "nodeChildren (attrs n)"] r(7) cs w2 by simp
  then show ?thesis
    using c e r(1,3) cs a2 fresh constructEach_untouched[of False "nodeChildren (attrs n)" w1]
    by (simp add: constructEach_innerNode constructEach_length)
qed

theorem collapse_then_expand_witness:
  "list_all (everyNode hasRepresentation) (children (fst sampleExpanded))
   \<and> length (children (fst sampleExpanded)) = 2
   \<and> nodeChildren (attrs (fst sampleExpanded)) = [Backing 1 [], Backing 2 []]
   \<and> (\<exists>n1 w1. collapse False (fst sampleExpanded) (snd sampleExpanded) = Some (n1, w1) \<and>
         map (\<lambda>c. innerNode (attrs c)) (children (fst (expand False n1 w1))) = [Backing 1 [], Backing 2 []])"
proof -
  note t = collapse_then_expand[OF sampleExpanded_hasRepresentation, of "snd sampleExpanded"]
  have b: "nodeChildren (attrs (fst sampleExpanded)) = [Backing 1 [], Backing 2 []]"
    by (simp add: sampleExpanded_attrs freshFields_def sampleBacking_def)
  have c: "length (children (fst sampleExpanded)) = 2"
    by (simp add: sampleExpanded_children)
  show ?thesis using t sampleExpanded_hasRepresentation b c by (auto simp: split_beta list_all_iff)
qed

lemma sampleExpanded_reachable: "reachable (fst sampleExpanded, snd sampleExpanded)"
proof -
  have r0: "reachable (fst sampleRoot, snd sampleRoot)"
    using reachable.constructed[of sampleBacking hostWorld] by (simp add: sampleRoot_def)
  have "reachable sampleExpanded"
    by (rule reachable.expanded[OF r0, of "[]" False]) (simp add: sampleExpanded_def)
  then show ?thesis by simp
qed

theorem isExpanded_false_only_with_snapshot_witness:
  "reachable (fst sampleExpanded, snd sampleExpanded)
   \<and> nodeAt (fst sampleExpanded) [0] =
       Some (Node ((freshFields (Backing 1 []))\<lparr>representation := Some 3\<rparr>) [])
   \<and> nodeChildren (freshFields (Backing 1 [])) = []
   \<and> isExpanded (attrs (Node ((freshFields (Backing 1 []))\<lparr>representation := Some 3\<rparr>) []))"
proof -
  have n: "nodeAt (fst sampleExpanded) [0] =
       Some (Node ((freshFields (Backing 1 []))\<lparr>representation := Some 3\<rparr>) [])"
    using sampleExpanded_children by (cases "fst sampleExpanded") simp
  show ?thesis
    using isExpanded_false_only_with_snapshot[OF sampleExpanded_reachable n] sampleExpanded_reachable n
    by (simp add: freshFields_def)
qed

section \<open>What drawing leaves alone\<close>

lemma modify_world [simp]:
  "childNodes (modify e g w) = childNodes w"
  "nextId (modify e g w) = nextId w"
  "drawingTreeNodeIsExpanded (modify e g w) = drawingTreeNodeIsExpanded w"
  "getChildrenCalls (modify e g w) = getChildrenCalls w"
  "pendingWork (modify e g w) = pendingWork w"
  "redrawCalls (modify e g w) = redrawCalls w"
  by (simp_all add: modify_def)

lemma attach_world [simp]:
  "nextId (attach c e w) = nextId w"
  "drawingTreeNodeIsExpanded (attach c e w) = drawingTreeNodeIsExpanded w"
  "getChildrenCalls (attach c e w) = getChildrenCalls w"
  "pendingWork (attach c e w) = pendingWork w"
  "redrawCalls (attach c e w) = redrawCalls w"
  by (simp_all add: attach_def appendChild_def removeChild_def modify_def Let_def split: option.splits)

text \<open>
  \<open>sameHost w w'\<close>: the two worlds differ at most in the DOM (elements, child lists, next
  identity).
\<close>

definition sameHost :: "world \<Rightarrow> world \<Rightarrow> bool" where
  "sameHost w w' =
     (drawingTreeNodeIsExpanded w' = drawingTreeNodeIsExpanded w \<and>
      getChildrenCalls w' = getChildrenCalls w \<and>
      pendingWork w' = pendingWork w \<and> redrawCalls w' = redrawCalls w)"

lemma sameHost_refl [simp]: "sameHost w w"
  by (simp add: sameHost_def)

lemma sameHost_trans: "sameHost w w1 \<Longrightarrow> sameHost w1 w2 \<Longrightarrow> sameHost w w2"
  by (simp add: sameHost_def)

lemma sameHost_placeElement: "placeElement c vp f w = Some (f1, w1) \<Longrightarrow> sameHost w w1"
  by (auto simp: placeElement_def sameHost_def Let_def split: option.splits)

lemma sameHost_placeBars: "sameHost w (snd (placeBars c vp n w))"
  by (simp add: placeBars_def sameHost_def Let_def split_beta)

lemma sameHost_placeParentBar: "sameHost w (snd (snd (placeParentBar c vp n w)))"
  by (simp add: placeParentBar_def sameHost_def Let_def split_beta)

lemma sameHost_draw:
  "draw c vp n w = Some (n', w', vp') \<Longrightarrow> sameHost w w'"
  "drawEach c vp cs w = Some (cs', w', vp') \<Longrightarrow> sameHost w w'"
proof (induction c vp n w and c vp cs w arbitrary: n' w' vp' and cs' w' vp' rule: draw_drawEach.induct)
  case (1 container vp f cs w)
  from "1.prems" obtain f1 w1 where pe: "placeElement container vp f w = Some (f1, w1)"
    by (auto split: option.splits)
  show ?case
  proof (cases "0 < length cs")
    case False
    then show ?thesis using "1.prems" pe sameHost_placeElement[OF pe] by auto
  next
    case True
    obtain n2 w2 where pb: "placeBars container vp (Node f1 cs) w1 = (n2, w2)" by fastforce
    from "1.prems" pe True pb obtain cs3 where
      de: "drawEach container (vp\<lparr>vp_y := vp_y vp + (NODE_HEIGHT + NODE_MARGIN_Y)\<rparr>) (children n2) w2 = Some (cs3, w', vp')"
      by (auto simp: Let_def split: option.splits)
    have "sameHost w2 w'" using "1.IH"[OF pe refl True refl pb[symmetric] refl de] .
    moreover have "sameHost w1 w2" using sameHost_placeBars[of w1 container vp "Node f1 cs"] pb by simp
    ultimately show ?thesis using sameHost_placeElement[OF pe] by (blast intro: sameHost_trans)
  qed
next
  case (2 container vp w)
  then show ?case by simp
next
  case (3 container vp c cs w)
  obtain rw c1 w1 where pp: "placeParentBar container vp c w = (rw, c1, w1)"
    by (metis prod_cases3)
  from "3.prems" pp obtain c2 w2 vpc cs3 where
    d: "draw container \<lparr>vp_x = vp_x vp, vp_y = vp_y vp\<rparr> c1 w1 = Some (c2, w2, vpc)"
    and de: "drawEach container (vp\<lparr>vp_x := vp_x vp + (rw + NODE_MARGIN_X)\<rparr>) cs w2 = Some (cs3, w', vp')"
    by (auto simp: Let_def split: option.splits)
  have "sameHost w1 w2" using "3.IH"(1)[OF refl pp[symmetric] refl d] .
  moreover have "sameHost w w1" using sameHost_placeParentBar[of w container vp c] pp by simp
  moreover have "sameHost w2 w'" using "3.IH"(2)[OF refl pp[symmetric] refl d refl refl de] .
  ultimately show ?case by (blast intro: sameHost_trans)
qed

lemma hasRepresentation_strip: "everyNode hasRepresentation (strip n) = everyNode hasRepresentation n"
  by (induction n) (simp add: hasRepresentation_def)

lemma everyNode_children: "everyNode P n \<Longrightarrow> c \<in> set (children n) \<Longrightarrow> everyNode P c"
  by (cases n) simp

lemma draw_succeeds:
  "everyNode hasRepresentation n \<Longrightarrow> draw c vp n w \<noteq> None"
  "\<forall>x \<in> set cs. everyNode hasRepresentation x \<Longrightarrow> drawEach c vp cs w \<noteq> None"
proof (induction c vp n w and c vp cs w rule: draw_drawEach.induct)
  case (1 container vp f cs w)
  have "placeElement container vp f w \<noteq> None"
    using "1.prems" by (auto simp: placeElement_def hasRepresentation_def Let_def)
  then obtain f1 w1 where pe: "placeElement container vp f w = Some (f1, w1)" by auto
  show ?case
  proof (cases "0 < length cs")
    case False
    then show ?thesis using pe by simp
  next
    case True
    obtain n2 w2 where pb: "placeBars container vp (Node f1 cs) w1 = (n2, w2)" by fastforce
    have "strip n2 = strip (Node f cs)"
      using strip_placeBars[of container vp "Node f1 cs" w1] pb strip_placeElement[OF pe, of cs] by simp
    then have "everyNode hasRepresentation n2"
      using "1.prems" hasRepresentation_strip[of n2] hasRepresentation_strip[of "Node f cs"] by simp
    then have "\<forall>x \<in> set (children n2). everyNode hasRepresentation x"
      by (auto dest: everyNode_children)
    then have "drawEach container (vp\<lparr>vp_y := vp_y vp + (NODE_HEIGHT + NODE_MARGIN_Y)\<rparr>) (children n2) w2 \<noteq> None"
      using "1.IH"[OF pe refl True refl pb[symmetric] refl] by blast
    then show ?thesis using pe True pb by (auto simp: Let_def)
  qed
next
  case (2 container vp w)
  then show ?case by simp
next
  case (3 container vp c cs w)
  obtain rw c1 w1 where pp: "placeParentBar container vp c w = (rw, c1, w1)"
    by (metis prod_cases3)
  have "strip c1 = strip c" using strip_placeParentBar[of container vp c w] pp by simp
  then have "everyNode hasRepresentation c1"
    using "3.prems" hasRepresentation_strip[of c1] hasRepresentation_strip[of c] by simp
  then have "draw container \<lparr>vp_x = vp_x vp, vp_y = vp_y vp\<rparr> c1 w1 \<noteq> None"
    using "3.IH"(1)[OF refl pp[symmetric] refl] by blast
  then obtain c2 w2 vpc where
    d: "draw container \<lparr>vp_x = vp_x vp, vp_y = vp_y vp\<rparr> c1 w1 = Some (c2, w2, vpc)" by auto
  have "drawEach container (vp\<lparr>vp_x := vp_x vp + (rw + NODE_MARGIN_X)\<rparr>) cs w2 \<noteq> None"
    using "3.IH"(2)[OF refl pp[symmetric] refl d refl refl] "3.prems" by simp
  then show ?case using pp d by (auto simp: Let_def)
qed


section \<open>Invalidation\<close>

text \<open>
  \<open>markAt p t\<close> is \<open>t\<close> with the cached width of the node at \<open>p\<close> dirty; \<open>dirtyAlong p t\<close> is
  \<open>t\<close> with the cached widths of the node at \<open>p\<close> and of all its ancestors dirty.
\<close>

fun markAt :: "nat list \<Rightarrow> DrawingTreeNode \<Rightarrow> DrawingTreeNode" where
  "markAt [] (Node f cs) = Node (f\<lparr>requiredWidth := - 1\<rparr>) cs"
| "markAt (i # p) (Node f cs) = Node f (cs[i := markAt p (cs ! i)])"

fun dirtyAlong :: "nat list \<Rightarrow> DrawingTreeNode \<Rightarrow> DrawingTreeNode" where
  "dirtyAlong [] (Node f cs) = Node (f\<lparr>requiredWidth := - 1\<rparr>) cs"
| "dirtyAlong (i # p) (Node f cs) =
     Node (f\<lparr>requiredWidth := - 1\<rparr>) (cs[i := dirtyAlong p (cs ! i)])"

lemma callAt_markDirty:
  "nodeAt t p \<noteq> None \<Longrightarrow> callAt p markDirty t w = Some (markAt p t, w)"
proof (induction p arbitrary: t)
  case Nil
  then show ?case by (cases t) (simp add: markDirty_def)
next
  case (Cons i p)
  then show ?case by (cases t) (auto split: if_splits)
qed

lemma nodeAt_butlast: "nodeAt t (p @ [i]) \<noteq> None \<Longrightarrow> nodeAt t p \<noteq> None"
proof (induction p arbitrary: t)
  case Nil
  then show ?case by simp
next
  case (Cons j p)
  then show ?case by (cases t) (auto split: if_splits)
qed

lemma nodeAt_markAt: "nodeAt t p \<noteq> None \<Longrightarrow> nodeAt (markAt q t) p \<noteq> None"
proof (induction p arbitrary: t q)
  case Nil
  then show ?case by simp
next
  case (Cons j p)
  obtain f cs where t: "t = Node f cs" by (cases t)
  show ?case
  proof (cases q)
    case Nil
    then show ?thesis using Cons.prems t by simp
  next
    case (Cons i q')
    then show ?thesis using Cons.prems Cons.IH t
      by (cases "i = j") (auto split: if_splits)
  qed
qed

lemma dirtyAlong_markAt:
  "nodeAt t (p @ [i]) \<noteq> None \<Longrightarrow> dirtyAlong p (markAt (p @ [i]) t) = dirtyAlong (p @ [i]) t"
proof (induction p arbitrary: t)
  case Nil
  then show ?case by (cases t; cases "children t ! i") (auto split: if_splits)
next
  case (Cons j p)
  then show ?case by (cases t) (auto split: if_splits)
qed

lemma invalidate_dirtyAlong:
  "nodeAt t p \<noteq> None \<Longrightarrow> invalidate p t w = redraw [] (dirtyAlong p t) w"
proof (induction p arbitrary: t rule: rev_induct)
  case Nil
  then show ?case by (cases t) (simp add: markDirty_def)
next
  case (snoc i p)
  have "invalidate (p @ [i]) t w = invalidate p (markAt (p @ [i]) t) w"
    using callAt_markDirty[OF snoc.prems, of w] by simp
  also have "\<dots> = redraw [] (dirtyAlong p (markAt (p @ [i]) t)) w"
    by (rule snoc.IH) (rule nodeAt_markAt[OF nodeAt_butlast[OF snoc.prems]])
  finally show ?case by (simp add: dirtyAlong_markAt[OF snoc.prems])
qed

lemma dirtyAlong_prefixes:
  "nodeAt t p \<noteq> None \<Longrightarrow> k \<le> length p \<Longrightarrow>
     \<exists>n. nodeAt (dirtyAlong p t) (take k p) = Some n \<and> requiredWidth (attrs n) = - 1"
proof (induction p arbitrary: t k)
  case Nil
  then show ?case by (cases t) simp
next
  case (Cons i p)
  obtain f cs where t: "t = Node f cs" by (cases t)
  show ?case
  proof (cases k)
    case 0
    then show ?thesis using t by simp
  next
    case (Suc k')
    have "i < length cs" "nodeAt (cs ! i) p \<noteq> None" using Cons.prems(1) t by (auto split: if_splits)
    then show ?thesis using Cons.IH[of "cs ! i" k'] Cons.prems(2) t Suc by simp
  qed
qed

lemma dirtyAlong_attrs:
  "attrs (dirtyAlong p t) = (attrs t)\<lparr>requiredWidth := - 1\<rparr>"
  by (cases t; cases p) simp_all

lemma strip_dirtyAlong: "strip (dirtyAlong p t) = strip t"
proof (induction p arbitrary: t)
  case Nil
  then show ?case by (cases t) simp
next
  case (Cons i p)
  then show ?case by (cases t) (simp add: map_strip_update)
qed

text \<open>
  Claim C2. Let \<open>p\<close> be the path of a node of a tree whose root has been drawn and whose
  nodes have their representations. One call of \<open>invalidate\<close> on that node is one \<open>redraw\<close>,
  run on the root (the node at the empty path, the one without a parent), of the tree in
  which that node and every ancestor of it (the nodes at the prefixes of \<open>p\<close>) have a dirty
  cached width. The call returns, and exactly one \<open>redraw\<close> has been recorded, on the root.
\<close>

theorem invalidate_redraws_root_once:
  assumes "nodeAt t p \<noteq> None" and "everyNode hasRepresentation t"
    and "lastContainer (attrs t) \<noteq> None" and "lastViewport (attrs t) \<noteq> None"
  shows "invalidate p t w = redraw [] (dirtyAlong p t) w
         \<and> (\<exists>t' w'. invalidate p t w = Some (t', w') \<and> redrawCalls w' = redrawCalls w @ [[]])
         \<and> (\<forall>k \<le> length p. \<exists>n. nodeAt (dirtyAlong p t) (take k p) = Some n
                                  \<and> requiredWidth (attrs n) = - 1)"
proof -
  have eq: "invalidate p t w = redraw [] (dirtyAlong p t) w"
    by (rule invalidate_dirtyAlong[OF assms(1)])
  obtain c vp where c: "lastContainer (attrs (dirtyAlong p t)) = Some c"
    and vp: "lastViewport (attrs (dirtyAlong p t)) = Some vp"
    using assms(3,4) by (auto simp: dirtyAlong_attrs)
  have "everyNode hasRepresentation (dirtyAlong p t)"
    using assms(2) hasRepresentation_strip[of t] hasRepresentation_strip[of "dirtyAlong p t"]
    by (simp add: strip_dirtyAlong)
  then obtain t' w' vp' where
    d: "draw c vp (dirtyAlong p t) (w\<lparr>redrawCalls := redrawCalls w @ [[]]\<rparr>) = Some (t', w', vp')"
    using draw_succeeds(1)[of "dirtyAlong p t" c vp "w\<lparr>redrawCalls := redrawCalls w @ [[]]\<rparr>"]
    by auto
  have "redrawCalls w' = redrawCalls w @ [[]]"
    using sameHost_draw(1)[OF d] by (simp add: sameHost_def)
  moreover have "redraw [] (dirtyAlong p t) w = Some (t', w')"
    using c vp d by (simp add: redraw_def)
  ultimately show ?thesis using eq dirtyAlong_prefixes[OF assms(1)] by simp
qed


section \<open>Drawing\<close>

lemma getRequiredWidth_attrs:
  "attrs (snd (getRequiredWidth n)) = (attrs n)\<lparr>requiredWidth := fst (getRequiredWidth n)\<rparr>"
  by (cases n) (simp add: getRequiredWidth_unfold Let_def del: getRequiredWidth.simps)

lemma getRequiredWidth_not_dirty: "fst (getRequiredWidth n) \<noteq> - 1"
  by (cases n) (simp add: getRequiredWidth_unfold Let_def NODE_WIDTH_def del: getRequiredWidth.simps)

lemma placeElement_attrs:
  "placeElement c vp f w = Some (f1, w1) \<Longrightarrow>
     f1 = f\<lparr>lastContainer := Some c, lastViewport := Some vp\<rparr>"
  by (auto simp: placeElement_def Let_def split: option.splits)

lemma attrs_node [simp]: "attrs (snd (getRequiredWidth (Node f cs))) = f\<lparr>requiredWidth := fst (getRequiredWidth (Node f cs))\<rparr>"
  using getRequiredWidth_attrs[of "Node f cs"] by simp

lemma placeBars_fields:
  "lastContainer (attrs (fst (placeBars c vp n w))) = lastContainer (attrs n)"
  "lastViewport (attrs (fst (placeBars c vp n w))) = lastViewport (attrs n)"
  "representation (attrs (fst (placeBars c vp n w))) = representation (attrs n)"
  "parentBar (attrs (fst (placeBars c vp n w))) = parentBar (attrs n)"
  "isExpanded (attrs (fst (placeBars c vp n w))) = isExpanded (attrs n)"
  "requiredWidth (attrs n) \<noteq> - 1 \<Longrightarrow>
     requiredWidth (attrs (fst (placeBars c vp n w))) = requiredWidth (attrs n)"
  by (simp_all add: placeBars_def Let_def split_beta getBar_attrs getRequiredWidth_unfold
      del: getRequiredWidth.simps)

lemma placeParentBar_fields:
  "fst (placeParentBar c vp n w) = fst (getRequiredWidth n)"
  "requiredWidth (attrs (fst (snd (placeParentBar c vp n w)))) = fst (getRequiredWidth n)"
  by (simp_all add: placeParentBar_def Let_def split_beta getBar_attrs getRequiredWidth_attrs)

lemma draw_fields:
  assumes "draw c vp n w = Some (n', w', vp')"
  shows "lastContainer (attrs n') = Some c" and "lastViewport (attrs n') = Some vp"
    and "representation (attrs n') = representation (attrs n)"
    and "parentBar (attrs n') = parentBar (attrs n)"
    and "requiredWidth (attrs n) \<noteq> - 1 \<Longrightarrow> requiredWidth (attrs n') = requiredWidth (attrs n)"
proof -
  obtain f cs where n: "n = Node f cs" by (cases n)
  from assms n obtain f1 w1 where pe: "placeElement c vp f w = Some (f1, w1)"
    by (auto split: option.splits)
  note f1 = placeElement_attrs[OF pe]
  have "lastContainer (attrs n') = Some c \<and> lastViewport (attrs n') = Some vp
      \<and> representation (attrs n') = representation (attrs n)
      \<and> parentBar (attrs n') = parentBar (attrs n)
      \<and> (requiredWidth (attrs n) \<noteq> - 1 \<longrightarrow> requiredWidth (attrs n') = requiredWidth (attrs n))"
  proof (cases "0 < length cs")
    case False
    then show ?thesis using assms n pe f1 by auto
  next
    case True
    then have "attrs n' = attrs (fst (placeBars c vp (Node f1 cs) w1))"
      using assms n pe by (auto simp: Let_def split_beta split: option.splits)
    then show ?thesis
      using placeBars_fields[where c = c and vp = vp and n = "Node f1 cs" and w = w1] f1 n by simp
  qed
  then show "lastContainer (attrs n') = Some c" and "lastViewport (attrs n') = Some vp"
    and "representation (attrs n') = representation (attrs n)"
    and "parentBar (attrs n') = parentBar (attrs n)"
    and "requiredWidth (attrs n) \<noteq> - 1 \<Longrightarrow> requiredWidth (attrs n') = requiredWidth (attrs n)"
    by simp_all
qed

lemma drawEach_widths:
  "drawEach c vp cs w = Some (cs', w', vp') \<Longrightarrow>
     map (\<lambda>x. requiredWidth (attrs x)) cs' = map (\<lambda>x. fst (getRequiredWidth x)) cs
     \<and> vp' = vp\<lparr>vp_x := vp_x vp + sum_list (map (\<lambda>x. fst (getRequiredWidth x) + NODE_MARGIN_X) cs)\<rparr>"
proof (induction cs arbitrary: vp w cs' w' vp')
  case Nil
  then show ?case by simp
next
  case (Cons ch cs)
  obtain rw c1 w1 where pp: "placeParentBar c vp ch w = (rw, c1, w1)"
    by (metis prod_cases3)
  from Cons.prems pp obtain c2 w2 vpc cs3 where
    d: "draw c \<lparr>vp_x = vp_x vp, vp_y = vp_y vp\<rparr> c1 w1 = Some (c2, w2, vpc)"
    and de: "drawEach c (vp\<lparr>vp_x := vp_x vp + (rw + NODE_MARGIN_X)\<rparr>) cs w2 = Some (cs3, w', vp')"
    and cs': "cs' = c2 # cs3"
    by (auto simp: Let_def split: option.splits)
  have rw: "rw = fst (getRequiredWidth ch)" "requiredWidth (attrs c1) = fst (getRequiredWidth ch)"
    using placeParentBar_fields[of c vp ch w] pp by simp_all
  have "requiredWidth (attrs c2) = fst (getRequiredWidth ch)"
    using draw_fields(5)[OF d] rw(2) getRequiredWidth_not_dirty[of ch] by simp
  then show ?case using Cons.IH[OF de] cs' rw(1) by (simp add: add.assoc)
qed


lemma draw_viewport:
  assumes "draw c vp n w = Some (n', w', vp')"
  shows "vp' = (if children n = [] then vp
                else \<lparr>vp_x = vp_x vp + sum_list (map (\<lambda>x. requiredWidth (attrs x) + NODE_MARGIN_X)
                                                 (children n')),
                      vp_y = vp_y vp + (NODE_HEIGHT + NODE_MARGIN_Y)\<rparr>)"
proof -
  obtain f0 cs where n: "n = Node f0 cs" by (cases n)
  from assms n obtain f1 w1 where pe: "placeElement c vp f0 w = Some (f1, w1)"
    by (auto split: option.splits)
  show ?thesis
  proof (cases "0 < length cs")
    case False
    then show ?thesis using assms n pe by auto
  next
    case True
    obtain n2 w2 where pb: "placeBars c vp (Node f1 cs) w1 = (n2, w2)" by fastforce
    from assms n pe True pb obtain cs3 where
      de: "drawEach c (vp\<lparr>vp_y := vp_y vp + (NODE_HEIGHT + NODE_MARGIN_Y)\<rparr>) (children n2) w2 = Some (cs3, w', vp')"
      and n': "n' = Node (attrs n2) cs3"
      by (auto simp: Let_def split: option.splits)
    have "map (\<lambda>x. requiredWidth (attrs x) + NODE_MARGIN_X) cs3
          = map (\<lambda>x. fst (getRequiredWidth x) + NODE_MARGIN_X) (children n2)"
      using drawEach_widths[OF de] by (simp add: list_eq_iff_nth_eq)
    then show ?thesis using drawEach_widths[OF de] n' n True by simp
  qed
qed

text \<open>
  Claim C10. \<open>draw\<close> on a tree whose nodes have their representations returns, and it
  mutates the viewport object it was passed: with children, \<open>y\<close> has advanced once by node
  height plus vertical margin and \<open>x\<close> by each child's required width plus horizontal
  margin. The node's \<open>lastViewport\<close> nevertheless holds the coordinates the call was given,
  so a \<open>redraw\<close> after it is \<open>draw\<close> with the same container at those original coordinates.
\<close>

theorem draw_records_origin:
  assumes "everyNode hasRepresentation n"
  shows "\<exists>n' w' vp'. draw c vp n w = Some (n', w', vp')
           \<and> lastContainer (attrs n') = Some c \<and> lastViewport (attrs n') = Some vp
           \<and> vp' = (if children n = [] then vp
                    else \<lparr>vp_x = vp_x vp + sum_list (map (\<lambda>x. requiredWidth (attrs x) + NODE_MARGIN_X)
                                                     (children n')),
                          vp_y = vp_y vp + (NODE_HEIGHT + NODE_MARGIN_Y)\<rparr>)
           \<and> redraw p n' w' =
               (case draw c vp n' (w'\<lparr>redrawCalls := redrawCalls w' @ [p]\<rparr>) of
                  None \<Rightarrow> None
                | Some (n'', w'', vp'') \<Rightarrow> Some (n'', w''))"
proof -
  obtain n' w' vp' where d: "draw c vp n w = Some (n', w', vp')"
    using draw_succeeds(1)[OF assms, of c vp w] by auto
  show ?thesis using d draw_fields(1,2)[OF d] draw_viewport[OF d] by (simp add: redraw_def)
qed

lemma sampleExpanded_everyRepresentation: "everyNode hasRepresentation (fst sampleExpanded)"
  using sampleExpanded_attrs sampleExpanded_children
  by (cases "fst sampleExpanded") (simp add: hasRepresentation_def)

theorem draw_records_origin_witness:
  "everyNode hasRepresentation (fst sampleExpanded) \<and> length (children (fst sampleExpanded)) = 2
   \<and> (\<exists>n' w' vp'. draw 0 \<lparr>vp_x = 0, vp_y = 0\<rparr> (fst sampleExpanded) (snd sampleExpanded) = Some (n', w', vp')
          \<and> lastViewport (attrs n') = Some \<lparr>vp_x = 0, vp_y = 0\<rparr> \<and> vp_y vp' = 100)"
proof -
  have c: "length (children (fst sampleExpanded)) = 2" by (simp add: sampleExpanded_children)
  then have "children (fst sampleExpanded) \<noteq> []" by auto
  then show ?thesis
    using draw_records_origin[OF sampleExpanded_everyRepresentation, of 0 "\<lparr>vp_x = 0, vp_y = 0\<rparr>" "snd sampleExpanded" "[]"]
      sampleExpanded_everyRepresentation c
    by (auto simp: NODE_HEIGHT_def NODE_MARGIN_Y_def)
qed

definition sampleDrawn :: "DrawingTreeNode \<times> world" where
  "sampleDrawn =
     (case draw 0 \<lparr>vp_x = 0, vp_y = 0\<rparr> (fst sampleExpanded) (snd sampleExpanded) of
        None \<Rightarrow> sampleExpanded
      | Some (n, w, vp) \<Rightarrow> (n, w))"

lemma nodeAt_strip: "(nodeAt (strip t) p = None) = (nodeAt t p = None)"
proof (induction p arbitrary: t)
  case Nil
  then show ?case by simp
next
  case (Cons i p)
  then show ?case by (cases t) simp
qed

lemma sampleDrawn_draw:
  "\<exists>vp. draw 0 \<lparr>vp_x = 0, vp_y = 0\<rparr> (fst sampleExpanded) (snd sampleExpanded)
      = Some (fst sampleDrawn, snd sampleDrawn, vp)"
  using draw_succeeds(1)[OF sampleExpanded_everyRepresentation, of 0 "\<lparr>vp_x = 0, vp_y = 0\<rparr>" "snd sampleExpanded"]
  by (auto simp: sampleDrawn_def)

theorem invalidate_redraws_root_once_witness:
  "nodeAt (fst sampleDrawn) [1] \<noteq> None \<and> everyNode hasRepresentation (fst sampleDrawn)
   \<and> lastContainer (attrs (fst sampleDrawn)) = Some 0
   \<and> lastViewport (attrs (fst sampleDrawn)) = Some \<lparr>vp_x = 0, vp_y = 0\<rparr>
   \<and> (\<exists>t' w'. invalidate [1] (fst sampleDrawn) (snd sampleDrawn) = Some (t', w')
               \<and> redrawCalls w' = redrawCalls (snd sampleDrawn) @ [[]])"
proof -
  obtain vp where d: "draw 0 \<lparr>vp_x = 0, vp_y = 0\<rparr> (fst sampleExpanded) (snd sampleExpanded)
      = Some (fst sampleDrawn, snd sampleDrawn, vp)"
    using sampleDrawn_draw by auto
  have s: "strip (fst sampleDrawn) = strip (fst sampleExpanded)" by (rule strip_draw(1)[OF d])
  have "nodeAt (fst sampleExpanded) [1] \<noteq> None"
    using sampleExpanded_children by (cases "fst sampleExpanded") simp
  then have a: "nodeAt (fst sampleDrawn) [1] \<noteq> None"
    using nodeAt_strip[of "fst sampleDrawn" "[1]"] nodeAt_strip[of "fst sampleExpanded" "[1]"] s by simp
  have b: "everyNode hasRepresentation (fst sampleDrawn)"
    using sampleExpanded_everyRepresentation hasRepresentation_strip[of "fst sampleDrawn"]
      hasRepresentation_strip[of "fst sampleExpanded"] s by simp
  note f = draw_fields(1,2)[OF d]
  have c: "lastContainer (attrs (fst sampleDrawn)) \<noteq> None"
    and v: "lastViewport (attrs (fst sampleDrawn)) \<noteq> None"
    using f by simp_all
  from invalidate_redraws_root_once[OF a b c v, of "snd sampleDrawn"]
  obtain t' w' where "invalidate [1] (fst sampleDrawn) (snd sampleDrawn) = Some (t', w')"
    and "redrawCalls w' = redrawCalls (snd sampleDrawn) @ [[]]"
    by blast
  then show ?thesis using a b f by blast
qed


section \<open>Refreshing a representation\<close>

lemma createRepresentation_elems:
  "e \<noteq> nextId w \<Longrightarrow> e \<noteq> Suc (nextId w) \<Longrightarrow> elems (snd (createRepresentation f w)) e = elems w e"
  "e \<noteq> nextId w \<Longrightarrow> e \<noteq> Suc (nextId w) \<Longrightarrow> childNodes (snd (createRepresentation f w)) e = childNodes w e"
  "parentNode (elems (snd (createRepresentation f w)) (nextId w)) = None"
  by (simp_all add: createRepresentation_def backing_createRepresentation_def createElement_def
      appendChild_def removeChild_def modify_def blank_def Let_def split_beta split: option.splits)

lemma removeChild_world [simp]:
  "nextId (removeChild q e w) = nextId w"
  "drawingTreeNodeIsExpanded (removeChild q e w) = drawingTreeNodeIsExpanded w"
  "getChildrenCalls (removeChild q e w) = getChildrenCalls w"
  "pendingWork (removeChild q e w) = pendingWork w"
  "redrawCalls (removeChild q e w) = redrawCalls w"
  by (simp_all add: removeChild_def)

lemma appendChild_world [simp]:
  "nextId (appendChild q e w) = nextId w"
  "drawingTreeNodeIsExpanded (appendChild q e w) = drawingTreeNodeIsExpanded w"
  "getChildrenCalls (appendChild q e w) = getChildrenCalls w"
  "pendingWork (appendChild q e w) = pendingWork w"
  "redrawCalls (appendChild q e w) = redrawCalls w"
  by (simp_all add: appendChild_def Let_def split: option.splits)

text \<open>
  Claim C9. Let the representation \<open>old\<close> of a node be attached to \<open>parent\<close> (both existing
  elements). \<open>updateRepresentation\<close> detaches \<open>old\<close> and makes a new representation with the
  backing node's \<open>createRepresentation\<close>; the new one ends up attached to the same parent
  with the class, left and top that \<open>old\<close> had. The children are not refreshed in the call:
  the child nodes are unchanged, only the node's own two elements were created, no other
  existing element changed, and the work on the children is pending.
\<close>

theorem updateRepresentation_swaps:
  assumes "representation (attrs n) = Some old" and "parentNode (elems w old) = Some parent"
    and "old < nextId w" and "parent < nextId w"
  shows "representation (attrs (fst (updateRepresentation p n w))) = Some (nextId w)
     \<and> fst (backing_createRepresentation (innerNode (attrs n)) (removeChild parent old w)) = nextId w
     \<and> parentNode (elems (snd (updateRepresentation p n w)) old) = None
     \<and> old \<notin> set (childNodes (snd (updateRepresentation p n w)) parent)
     \<and> parentNode (elems (snd (updateRepresentation p n w)) (nextId w)) = Some parent
     \<and> nextId w \<in> set (childNodes (snd (updateRepresentation p n w)) parent)
     \<and> className (elems (snd (updateRepresentation p n w)) (nextId w)) = className (elems w old)
     \<and> style_left (elems (snd (updateRepresentation p n w)) (nextId w)) = style_left (elems w old)
     \<and> style_top (elems (snd (updateRepresentation p n w)) (nextId w)) = style_top (elems w old)
     \<and> children (fst (updateRepresentation p n w)) = children n
     \<and> pendingWork (snd (updateRepresentation p n w)) = pendingWork w @ [p]
     \<and> nextId (snd (updateRepresentation p n w)) = nextId w + 2
     \<and> (\<forall>e < nextId w. e \<noteq> old \<longrightarrow> elems (snd (updateRepresentation p n w)) e = elems w e)"
proof -
  define w1 where "w1 = removeChild parent old w"
  define f1 where "f1 = (attrs n)\<lparr>representation := None\<rparr>"
  define w2 where "w2 = snd (createRepresentation f1 w1)"
  define new where "new = nextId w"
  define w3 where "w3 = modify new (\<lambda>r. r\<lparr>className := className (elems w old),
                                             style_left := style_left (elems w old),
                                             style_top := style_top (elems w old)\<rparr>)
                                     (appendChild parent new w2)"
  have n1: "nextId w1 = nextId w" by (simp add: w1_def removeChild_def)
  have res: "updateRepresentation p n w =
     (Node (f1\<lparr>representation := Some new\<rparr>) (children n), w3\<lparr>pendingWork := pendingWork w3 @ [p]\<rparr>)"
    using assms(1,2)
    by (simp add: updateRepresentation_def Let_def split_beta createRepresentation_attrs
        w1_def f1_def w2_def w3_def new_def n1)
  have pn: "parentNode (elems w2 new) = None"
    using createRepresentation_elems(3)[of f1 w1] by (simp add: w2_def new_def n1)
  have old2: "elems w2 old = (elems w old)\<lparr>parentNode := None\<rparr>"
    using createRepresentation_elems(1)[of old w1 f1] assms(3)
    by (simp add: w2_def n1 w1_def removeChild_def modify_def)
  have kids2: "childNodes w2 parent = removeAll old (childNodes w parent)"
    using createRepresentation_elems(2)[of parent w1 f1] assms(4)
    by (simp add: w2_def n1 w1_def removeChild_def modify_def)
  have other2: "elems w2 e = elems w e" if "e < nextId w" "e \<noteq> old" for e
    using createRepresentation_elems(1)[of e w1 f1] that
    by (simp add: w2_def n1 w1_def removeChild_def modify_def)
  have ne: "new \<noteq> old" "new \<noteq> parent" using assms(3,4) by (simp_all add: new_def)
  have a3: "appendChild parent new w2 =
      modify new (\<lambda>r. r\<lparr>parentNode := Some parent\<rparr>)
        (w2\<lparr>childNodes := (childNodes w2)(parent := childNodes w2 parent @ [new])\<rparr>)"
    using pn by (simp add: appendChild_def)
  have "nextId w2 = nextId w + 2" "pendingWork w2 = pendingWork w"
    by (simp_all add: w2_def w1_def)
  then show ?thesis
    unfolding res using old2 kids2 other2 ne
    by (auto simp: w3_def a3[unfolded new_def] modify_def new_def backing_createRepresentation_def
        createElement_def)
qed


definition sampleAttached :: world where
  "sampleAttached = appendChild 0 1 (snd sampleRoot)"

lemma sampleRoot_attrs:
  "attrs (fst sampleRoot) = (freshFields sampleBacking)\<lparr>representation := Some 1\<rparr>"
  by (simp add: sample_defs new_DrawingTreeNode_attrs freshFields_def del: new_DrawingTreeNode.simps)

lemma sampleAttached_facts:
  "parentNode (elems sampleAttached 1) = Some 0" "nextId sampleAttached = 3"
  "pendingWork sampleAttached = []"
  by (simp_all add: sampleAttached_def sample_defs appendChild_def modify_def Let_def split_beta
      createRepresentation_attrs split: option.splits)

theorem updateRepresentation_swaps_witness:
  "representation (attrs (fst sampleRoot)) = Some 1
   \<and> parentNode (elems sampleAttached 1) = Some 0 \<and> 1 < nextId sampleAttached \<and> 0 < nextId sampleAttached
   \<and> representation (attrs (fst (updateRepresentation [] (fst sampleRoot) sampleAttached))) = Some 3
   \<and> parentNode (elems (snd (updateRepresentation [] (fst sampleRoot) sampleAttached)) 3) = Some 0
   \<and> parentNode (elems (snd (updateRepresentation [] (fst sampleRoot) sampleAttached)) 1) = None
   \<and> pendingWork (snd (updateRepresentation [] (fst sampleRoot) sampleAttached)) = [[]]"
proof -
  have a: "representation (attrs (fst sampleRoot)) = Some 1" by (simp add: sampleRoot_attrs)
  have b: "(1::nat) < nextId sampleAttached" "0 < nextId sampleAttached"
    by (simp_all add: sampleAttached_facts)
  show ?thesis
    using updateRepresentation_swaps[OF a sampleAttached_facts(1) b, of "[]"] a b sampleAttached_facts
    by simp
qed


section \<open>Drawing twice\<close>

declare getRequiredWidth.simps [simp del]

text \<open>
  \<open>settled container vp t w\<close>: in world \<open>w\<close>, tree \<open>t\<close> is as a call of \<open>draw\<close> with that
  container and origin leaves it. The representation of every node has the class of its
  expansion state, its position and the container as parent; a node with children has a
  clean width, its child bar and horizontal bar are positioned and attached, and every
  child has a clean width, a positioned and attached parent bar and is itself settled, at
  the origin the loop of \<open>draw\<close> gives it.
\<close>


definition nodeClass :: "vfields \<Rightarrow> string" where
  "nodeClass f = ''node'' @ (if isExpanded f then [] else '' collapsed'')"

definition placedAt :: "nat \<Rightarrow> number \<Rightarrow> number \<Rightarrow> element \<Rightarrow> bool" where
  "placedAt container l t r =
     (style_left r = Some l \<and> style_top r = Some t \<and> parentNode r = Some container)"

fun settled :: "nat \<Rightarrow> viewport \<Rightarrow> DrawingTreeNode \<Rightarrow> world \<Rightarrow> bool"
  and settledEach :: "nat \<Rightarrow> viewport \<Rightarrow> DrawingTreeNode list \<Rightarrow> world \<Rightarrow> bool"
where
  "settled container vp (Node f cs) w =
     (lastContainer f = Some container \<and> lastViewport f = Some vp \<and>
      (case representation f of
         None \<Rightarrow> False
       | Some e \<Rightarrow> className (elems w e) = nodeClass f \<and>
                   placedAt container (vp_x vp) (vp_y vp) (elems w e)) \<and>
      (cs = [] \<or>
         (requiredWidth f \<noteq> - 1 \<and>
          (case childBar f of
             None \<Rightarrow> False
           | Some v \<Rightarrow>
               placedAt container (vp_x vp + NODE_WIDTH / 2) (vp_y vp + NODE_HEIGHT) (elems w v)) \<and>
          (case horizontalBar f of
             None \<Rightarrow> False
           | Some h \<Rightarrow>
               style_width (elems w h) = Some (requiredWidth f - requiredWidth (attrs (last cs))) \<and>
               placedAt container (vp_x vp + NODE_WIDTH / 2)
                 (vp_y vp + NODE_HEIGHT + NODE_MARGIN_Y / 2) (elems w h)) \<and>
          settledEach container (vp\<lparr>vp_y := vp_y vp + (NODE_HEIGHT + NODE_MARGIN_Y)\<rparr>) cs w)))"
| "settledEach container vp [] w = True"
| "settledEach container vp (c # cs) w =
     (requiredWidth (attrs c) \<noteq> - 1 \<and>
      (case parentBar (attrs c) of
         None \<Rightarrow> False
       | Some b \<Rightarrow>
           placedAt container (vp_x vp + NODE_WIDTH / 2) (vp_y vp - NODE_MARGIN_Y / 2) (elems w b)) \<and>
      settled container \<lparr>vp_x = vp_x vp, vp_y = vp_y vp\<rparr> c w \<and>
      settledEach container (vp\<lparr>vp_x := vp_x vp + (requiredWidth (attrs c) + NODE_MARGIN_X)\<rparr>) cs w)"

lemma modify_same: "g (elems w e) = elems w e \<Longrightarrow> modify e g w = w"
  by (simp add: modify_def)

lemma attach_same: "parentNode (elems w e) = Some c \<Longrightarrow> attach c e w = w"
  by (simp add: attach_def)

lemma placeElement_settled:
  assumes "lastContainer f = Some c" "lastViewport f = Some vp" "representation f = Some e"
    "className (elems w e) = nodeClass f" "placedAt c (vp_x vp) (vp_y vp) (elems w e)"
  shows "placeElement c vp f w = Some (f, w)"
proof -
  have "modify e (\<lambda>r. r\<lparr>className := ''node'' @ (if isExpanded f then [] else '' collapsed''),
                                 style_left := Some (vp_x vp),
                                 style_top := Some (vp_y vp)\<rparr>) w = w"
    using assms(4,5) by (intro modify_same) (simp add: nodeClass_def placedAt_def)
  then show ?thesis using assms by (simp add: placeElement_def Let_def attach_same placedAt_def)
qed

lemma settledEach_clean: "settledEach c vp cs w \<Longrightarrow> x \<in> set cs \<Longrightarrow> requiredWidth (attrs x) \<noteq> - 1"
  by (induction cs arbitrary: vp) auto

lemma list_update_same: "i < length cs \<Longrightarrow> cs[i := cs ! i] = cs"
  by simp

lemma placeBars_settled:
  assumes "cs \<noteq> []" "requiredWidth f \<noteq> - 1" "\<forall>x \<in> set cs. requiredWidth (attrs x) \<noteq> - 1"
    "childBar f = Some v" "placedAt c (vp_x vp + NODE_WIDTH / 2) (vp_y vp + NODE_HEIGHT) (elems w v)"
    "horizontalBar f = Some h"
    "style_width (elems w h) = Some (requiredWidth f - requiredWidth (attrs (last cs)))"
    "placedAt c (vp_x vp + NODE_WIDTH / 2) (vp_y vp + NODE_HEIGHT + NODE_MARGIN_Y / 2) (elems w h)"
  shows "placeBars c vp (Node f cs) w = (Node f cs, w)"
proof -
  have c0: "getRequiredWidth (cs ! 0) = (requiredWidth (attrs (cs ! 0)), cs ! 0)"
    using assms(1,3) by (intro getRequiredWidth_clean) (simp add: nth_mem)
  have cl: "getRequiredWidth (cs ! (length cs - Suc 0)) =
      (requiredWidth (attrs (last cs)), cs ! (length cs - Suc 0))"
    using assms(1,3) getRequiredWidth_clean[of "cs ! (length cs - 1)"] by (simp add: last_conv_nth)
  have self: "getRequiredWidth (Node f cs) = (requiredWidth f, Node f cs)"
    using assms(2) getRequiredWidth_clean[of "Node f cs"] by simp
  have mv: "modify v (\<lambda>r. r\<lparr>style_left := Some (vp_x vp + NODE_WIDTH / 2),
                         style_top := Some (vp_y vp + NODE_HEIGHT)\<rparr>) w = w"
    using assms(5) by (intro modify_same) (simp add: placedAt_def)
  have mh: "modify h (\<lambda>r. r\<lparr>style_width := Some (requiredWidth f - requiredWidth (attrs (last cs))),
                         style_left := Some (vp_x vp + NODE_WIDTH / 2),
                         style_top := Some (vp_y vp + NODE_HEIGHT + NODE_MARGIN_Y / 2)\<rparr>) w = w"
    using assms(7,8) by (intro modify_same) (simp add: placedAt_def)
  have av: "attach c v w = w" and ah: "attach c h w = w"
    using assms(5,8) by (simp_all add: attach_same placedAt_def)
  show ?thesis
    using assms(1,4,6)
    by (simp add: placeBars_def Let_def c0 cl self mv mh av ah getChildBar_def getHorizontalBar_def
        del: getRequiredWidth.simps)
qed

lemma placeParentBar_settled:
  assumes "requiredWidth (attrs ch) \<noteq> - 1" "parentBar (attrs ch) = Some b"
    "placedAt c (vp_x vp + NODE_WIDTH / 2) (vp_y vp - NODE_MARGIN_Y / 2) (elems w b)"
  shows "placeParentBar c vp ch w = (requiredWidth (attrs ch), ch, w)"
proof -
  have m: "modify b (\<lambda>r. r\<lparr>style_left := Some (vp_x vp + NODE_WIDTH / 2),
                         style_top := Some (vp_y vp - NODE_MARGIN_Y / 2)\<rparr>) w = w"
    using assms(3) by (intro modify_same) (simp add: placedAt_def)
  have a: "attach c b w = w" using assms(3) by (simp add: attach_same placedAt_def)
  show ?thesis
    using assms(1,2) getRequiredWidth_clean[OF assms(1)]
    by (cases ch) (simp add: placeParentBar_def Let_def m a getParentBar_def del: getRequiredWidth.simps)
qed


lemma draw_settled:
  "settled c vp n w \<Longrightarrow> \<exists>vp'. draw c vp n w = Some (n, w, vp')"
  "settledEach c vp cs w \<Longrightarrow> \<exists>vp'. drawEach c vp cs w = Some (cs, w, vp')"
proof (induction c vp n w and c vp cs w rule: draw_drawEach.induct)
  case (1 container vp f cs w)
  from "1.prems" obtain e where e: "representation f = Some e"
    by (auto split: option.splits)
  have pe: "placeElement container vp f w = Some (f, w)"
    using "1.prems" e by (intro placeElement_settled[where e = e]) simp_all
  show ?case
  proof (cases "0 < length cs")
    case False
    then show ?thesis using pe by simp
  next
    case True
    from "1.prems" True obtain v h where v: "childBar f = Some v" and h: "horizontalBar f = Some h"
      by (auto split: option.splits)
    have se: "settledEach container (vp\<lparr>vp_y := vp_y vp + (NODE_HEIGHT + NODE_MARGIN_Y)\<rparr>) cs w"
      using "1.prems" True by simp
    have pb: "placeBars container vp (Node f cs) w = (Node f cs, w)"
      using "1.prems" True v h settledEach_clean[OF se]
      by (intro placeBars_settled[where v = v and h = h]) simp_all
    obtain vp' where "drawEach container (vp\<lparr>vp_y := vp_y vp + (NODE_HEIGHT + NODE_MARGIN_Y)\<rparr>) cs w = Some (cs, w, vp')"
      using "1.IH"[OF pe refl True refl pb[symmetric] refl] se by auto
    then show ?thesis using pe True pb by (simp add: Let_def)
  qed
next
  case (2 container vp w)
  then show ?case by simp
next
  case (3 container vp ch cs w)
  from "3.prems" obtain b where b: "parentBar (attrs ch) = Some b"
    by (auto split: option.splits)
  have pp: "placeParentBar container vp ch w = (requiredWidth (attrs ch), ch, w)"
    using "3.prems" b by (intro placeParentBar_settled[where b = b]) simp_all
  obtain vpc where d: "draw container \<lparr>vp_x = vp_x vp, vp_y = vp_y vp\<rparr> ch w = Some (ch, w, vpc)"
    using "3.IH"(1)[OF refl pp[symmetric] refl] "3.prems" by auto
  obtain vp' where "drawEach container (vp\<lparr>vp_x := vp_x vp + (requiredWidth (attrs ch) + NODE_MARGIN_X)\<rparr>) cs w = Some (cs, w, vp')"
    using "3.IH"(2)[OF refl pp[symmetric] refl d refl refl] "3.prems" by auto
  then show ?case using pp d by (simp add: Let_def)
qed


text \<open>
  \<open>ownElems t\<close> are the elements \<open>draw\<close> on \<open>t\<close> writes to: the representations, child bars and
  horizontal bars of all nodes of \<open>t\<close> and the parent bars of all nodes below its root.
  A tree is well formed in a world when its nodes have their representations and these
  elements are pairwise different and exist.
\<close>

fun opt :: "nat option \<Rightarrow> nat list" where
  "opt None = []"
| "opt (Some e) = [e]"

fun ownElems :: "DrawingTreeNode \<Rightarrow> nat list"
  and listElems :: "DrawingTreeNode list \<Rightarrow> nat list"
where
  "ownElems (Node f cs) =
     opt (representation f) @ opt (childBar f) @ opt (horizontalBar f) @ listElems cs"
| "listElems [] = []"
| "listElems (c # cs) = opt (parentBar (attrs c)) @ ownElems c @ listElems cs"

definition wellFormed :: "DrawingTreeNode \<Rightarrow> world \<Rightarrow> bool" where
  "wellFormed n w =
     (everyNode hasRepresentation n \<and> distinct (ownElems n) \<and>
      (\<forall>e \<in> set (ownElems n). e < nextId w))"

lemma elems_modify: "elems (modify e g w) = (elems w)(e := g (elems w e))"
  by (simp add: modify_def)

lemma elems_attach: "elems (attach c e w) = (elems w)(e := (elems w e)\<lparr>parentNode := Some c\<rparr>)"
  by (auto simp: attach_def appendChild_def removeChild_def modify_def Let_def fun_eq_iff
      split: option.splits)

lemma listElems_map:
  "(\<And>x. x \<in> set cs \<Longrightarrow> ownElems (g x) = ownElems x \<and> parentBar (attrs (g x)) = parentBar (attrs x))
   \<Longrightarrow> listElems (map g cs) = listElems cs"
  by (induction cs) simp_all

lemma listElems_update:
  "ownElems c = ownElems (cs ! i) \<Longrightarrow> parentBar (attrs c) = parentBar (attrs (cs ! i)) \<Longrightarrow>
   listElems (cs[i := c]) = listElems cs"
proof (induction cs arbitrary: i)
  case Nil
  then show ?case by simp
next
  case (Cons x xs)
  then show ?case by (cases i) simp_all
qed

lemma ownElems_getRequiredWidth:
  "ownElems (snd (getRequiredWidth n)) = ownElems n"
proof (induction n)
  case (Node f cs)
  have "listElems (map (\<lambda>c. snd (getRequiredWidth c)) cs) = listElems cs"
    using Node by (intro listElems_map) (simp add: getRequiredWidth_attrs)
  then show ?case by (simp add: getRequiredWidth_unfold Let_def del: getRequiredWidth.simps)
qed

lemma ownElems_attrs:
  "ownElems n = opt (representation (attrs n)) @ opt (childBar (attrs n)) @
     opt (horizontalBar (attrs n)) @ listElems (children n)"
  by (cases n) simp


text \<open>
  \<open>positionBar\<close> is what \<open>draw\<close> does three times with a connector: get it (creating it when
  absent), set its styles, attach it unless the container is its parent. \<open>layoutPass\<close> is
  the three width queries of lines 203 to 205.
\<close>

definition positionBar ::
  "nat \<Rightarrow> (element \<Rightarrow> element) \<Rightarrow> nat option \<Rightarrow> string \<Rightarrow> world \<Rightarrow> nat \<times> world" where
  "positionBar c g bar cls w =
     (case bar of
        Some b \<Rightarrow> (b, attach c b (modify b g w))
      | None \<Rightarrow>
          (let (b, w1) = createElement w
           in (b, attach c b (modify b g (modify b (\<lambda>r. r\<lparr>className := cls\<rparr>) w1)))))"

lemma positionBar_spec:
  "fst (positionBar c g bar cls w) = (case bar of Some b \<Rightarrow> b | None \<Rightarrow> nextId w)"
  "nextId (snd (positionBar c g bar cls w)) = (case bar of Some b \<Rightarrow> nextId w | None \<Rightarrow> Suc (nextId w))"
  "x \<noteq> fst (positionBar c g bar cls w) \<Longrightarrow> elems (snd (positionBar c g bar cls w)) x = elems w x"
  "\<exists>r. elems (snd (positionBar c g bar cls w)) (fst (positionBar c g bar cls w))
        = (g r)\<lparr>parentNode := Some c\<rparr>"
  by (auto simp: positionBar_def createElement_def elems_attach elems_modify split_beta
      split: option.splits)

lemma getRequiredWidth_idem:
  "getRequiredWidth (snd (getRequiredWidth n)) = (fst (getRequiredWidth n), snd (getRequiredWidth n))"
  using getRequiredWidth_clean[of "snd (getRequiredWidth n)"] getRequiredWidth_not_dirty[of n]
  by (simp add: getRequiredWidth_attrs)

definition layoutPass :: "DrawingTreeNode \<Rightarrow> number \<times> number \<times> DrawingTreeNode" where
  "layoutPass n =
     (let cs = children n;
          (firstWidth, c0) = getRequiredWidth (cs ! 0);
          cs1 = cs[0 := c0];
          (lastWidth, cl) = getRequiredWidth (cs1 ! (length cs1 - 1));
          cs2 = cs1[length cs1 - 1 := cl];
          (totalWidth, n1) = getRequiredWidth (Node (attrs n) cs2)
      in (totalWidth, lastWidth, n1))"

lemma placeBars_eq:
  "placeBars c vp n w =
     (let (totalWidth, lastWidth, n1) = layoutPass n;
          (v, wv) = positionBar c
                 (\<lambda>r. r\<lparr>style_left := Some (vp_x vp + NODE_WIDTH / 2),
                         style_top := Some (vp_y vp + NODE_HEIGHT)\<rparr>)
                 (childBar (attrs n1)) ''vertical'' w;
          (h, wh) = positionBar c
                 (\<lambda>r. r\<lparr>style_width := Some (totalWidth - lastWidth),
                         style_left := Some (vp_x vp + NODE_WIDTH / 2),
                         style_top := Some (vp_y vp + NODE_HEIGHT + NODE_MARGIN_Y / 2)\<rparr>)
                 (horizontalBar (attrs n1)) ''horizontal'' wv
      in (Node ((attrs n1)\<lparr>childBar := Some v, horizontalBar := Some h\<rparr>) (children n1), wh))"
  by (simp add: placeBars_def layoutPass_def positionBar_def getChildBar_def getHorizontalBar_def
      Let_def split_beta del: getRequiredWidth.simps split: option.splits)

lemma placeParentBar_eq:
  "placeParentBar c vp ch w =
     (let (rw, c1) = getRequiredWidth ch;
          (b, wb) = positionBar c
                 (\<lambda>r. r\<lparr>style_left := Some (vp_x vp + NODE_WIDTH / 2),
                         style_top := Some (vp_y vp - NODE_MARGIN_Y / 2)\<rparr>)
                 (parentBar (attrs c1)) ''vertical'' w
      in (rw, Node ((attrs c1)\<lparr>parentBar := Some b\<rparr>) (children c1), wb))"
  by (simp add: placeParentBar_def positionBar_def getParentBar_def
      Let_def split_beta del: getRequiredWidth.simps split: option.splits)

lemma layoutPass_spec:
  assumes "children n \<noteq> []"
  shows "attrs (snd (snd (layoutPass n))) = (attrs n)\<lparr>requiredWidth := fst (layoutPass n)\<rparr>"
    and "fst (layoutPass n) \<noteq> - 1"
    and "listElems (children (snd (snd (layoutPass n)))) = listElems (children n)"
    and "length (children (snd (snd (layoutPass n)))) = length (children n)"
    and "fst (getRequiredWidth (last (children (snd (snd (layoutPass n)))))) = fst (snd (layoutPass n))"
proof -
  define cs where "cs = children n"
  define cs1 where "cs1 = cs[0 := snd (getRequiredWidth (cs ! 0))]"
  define lw where "lw = fst (getRequiredWidth (cs1 ! (length cs1 - 1)))"
  define cl where "cl = snd (getRequiredWidth (cs1 ! (length cs1 - 1)))"
  define cs2 where "cs2 = cs1[length cs1 - 1 := cl]"
  define tw where "tw = fst (getRequiredWidth (Node (attrs n) cs2))"
  define n1 where "n1 = snd (getRequiredWidth (Node (attrs n) cs2))"
  have lp: "layoutPass n = (tw, lw, n1)"
    by (simp add: layoutPass_def Let_def split_beta cs_def cs1_def lw_def cl_def cs2_def tw_def n1_def)
  have ne: "cs \<noteq> []" using assms by (simp add: cs_def)
  then have len: "length cs2 = length cs" "length cs1 = length cs" "cs2 \<noteq> []"
    by (auto simp: cs2_def cs1_def)
  have a: "attrs n1 = (attrs n)\<lparr>requiredWidth := tw\<rparr>" by (simp add: n1_def tw_def)
  have b: "tw \<noteq> - 1" unfolding tw_def by (rule getRequiredWidth_not_dirty)
  have e1: "listElems cs1 = listElems cs"
    unfolding cs1_def by (intro listElems_update) (simp_all add: ownElems_getRequiredWidth getRequiredWidth_attrs)
  have e2: "listElems cs2 = listElems cs1"
    unfolding cs2_def cl_def
    by (intro listElems_update) (simp_all add: ownElems_getRequiredWidth getRequiredWidth_attrs)
  have "ownElems n1 = ownElems (Node (attrs n) cs2)"
    unfolding n1_def by (rule ownElems_getRequiredWidth)
  then have c: "listElems (children n1) = listElems cs"
    using a e1 e2 by (simp add: ownElems_attrs[of n1])
  have last2: "last cs2 = cl"
    using len ne by (simp add: cs2_def last_conv_nth)
  have clean: "getRequiredWidth cl = (lw, cl)"
    unfolding cl_def lw_def by (rule getRequiredWidth_idem)
  have kids: "children n1 = (if requiredWidth (attrs n) = - 1 then map (\<lambda>c. snd (getRequiredWidth c)) cs2 else cs2)"
    by (simp add: n1_def getRequiredWidth_unfold Let_def del: getRequiredWidth.simps)
  have d: "length (children n1) = length cs" using kids len by simp
  have "last (children n1) = cl"
    using kids last2 len(3) clean by (simp add: last_map)
  then have e: "fst (getRequiredWidth (last (children n1))) = lw" using clean by simp
  show "attrs (snd (snd (layoutPass n))) = (attrs n)\<lparr>requiredWidth := fst (layoutPass n)\<rparr>"
    and "fst (layoutPass n) \<noteq> - 1"
    and "listElems (children (snd (snd (layoutPass n)))) = listElems (children n)"
    and "length (children (snd (snd (layoutPass n)))) = length (children n)"
    and "fst (getRequiredWidth (last (children (snd (snd (layoutPass n)))))) = fst (snd (layoutPass n))"
    using a b c d e by (simp_all add: lp cs_def)
qed


lemma settled_frame:
  "settled c vp n w \<Longrightarrow> (\<And>x. x \<in> set (ownElems n) \<Longrightarrow> elems w' x = elems w x) \<Longrightarrow>
     settled c vp n w'"
  "settledEach c vp cs w \<Longrightarrow> (\<And>x. x \<in> set (listElems cs) \<Longrightarrow> elems w' x = elems w x) \<Longrightarrow>
     settledEach c vp cs w'"
proof (induction c vp n w and c vp cs w rule: settled_settledEach.induct)
  case (1 container vp f cs w)
  show ?case
  proof (cases "cs = []")
    case True
    then show ?thesis using "1.prems" by (auto split: option.splits)
  next
    case False
    have "settledEach container (vp\<lparr>vp_y := vp_y vp + (NODE_HEIGHT + NODE_MARGIN_Y)\<rparr>) cs w'"
      using "1.IH" "1.prems" False by simp
    then show ?thesis using "1.prems" False by (auto split: option.splits)
  qed
next
  case (2 container vp w)
  then show ?case by simp
next
  case (3 container vp c cs w)
  have a: "settled container \<lparr>vp_x = vp_x vp, vp_y = vp_y vp\<rparr> c w'"
    using "3.IH"(1) "3.prems" by simp
  have b: "settledEach container (vp\<lparr>vp_x := vp_x vp + (requiredWidth (attrs c) + NODE_MARGIN_X)\<rparr>) cs w'"
    using "3.IH"(2) "3.prems" by simp
  show ?case using a b "3.prems" by (auto split: option.splits)
qed

lemma placeElement_spec:
  assumes "placeElement c vp f w = Some (f1, w1)"
  shows "\<exists>e. representation f = Some e \<and> className (elems w1 e) = nodeClass f
            \<and> placedAt c (vp_x vp) (vp_y vp) (elems w1 e)
            \<and> (\<forall>x. x \<noteq> e \<longrightarrow> elems w1 x = elems w x)"
    and "nextId w1 = nextId w"
    and "f1 = f\<lparr>lastContainer := Some c, lastViewport := Some vp\<rparr>"
  using assms
  by (auto simp: placeElement_def Let_def elems_attach elems_modify nodeClass_def placedAt_def
      split: option.splits)


text \<open>
  \<open>framed old new w w'\<close>: a step from \<open>w\<close> to \<open>w'\<close> that may write to the elements \<open>old\<close> and
  create elements leaves every other existing element alone, and \<open>new\<close>, the elements
  written to from then on, are pairwise different and exist.
\<close>

definition framed :: "nat list \<Rightarrow> nat list \<Rightarrow> world \<Rightarrow> world \<Rightarrow> bool" where
  "framed old new w w' =
     (distinct new \<and> (\<forall>e \<in> set new. e < nextId w') \<and> nextId w \<le> nextId w' \<and>
      (\<forall>x. x < nextId w \<longrightarrow> x \<notin> set old \<longrightarrow> elems w' x = elems w x) \<and>
      (\<forall>x \<in> set new. x \<in> set old \<or> nextId w \<le> x))"

lemma drawEach_step:
  assumes pre: "distinct (opt pb @ E @ R)" "\<forall>e \<in> set (opt pb @ E @ R). e < nextId w"
    and b: "pb = Some b \<or> (pb = None \<and> b = nextId w)"
    and w1: "nextId w \<le> nextId w1" "\<forall>x. x \<noteq> b \<longrightarrow> elems w1 x = elems w x" "b < nextId w1"
    and p1: "framed E E2 w1 w2"
    and p2: "framed R R3 w2 w3"
  shows "framed (opt pb @ E @ R) (b # E2 @ R3) w w3"
    and "elems w3 b = elems w1 b"
    and "\<forall>x \<in> set E2. elems w3 x = elems w2 x"
proof -
  have bE: "b \<notin> set E" "b \<notin> set R" using pre b by auto
  have ER: "set E \<inter> set R = {}" using pre by auto
  have lt: "\<forall>e \<in> set E. e < nextId w" "\<forall>e \<in> set R. e < nextId w" using pre by auto
  have n12: "nextId w1 \<le> nextId w2" and n23: "nextId w2 \<le> nextId w3"
    using p1 p2 by (simp_all add: framed_def)
  have E2: "\<forall>x \<in> set E2. x \<in> set E \<or> nextId w1 \<le> x" "\<forall>x \<in> set E2. x < nextId w2" "distinct E2"
    using p1 by (simp_all add: framed_def)
  have R3: "\<forall>x \<in> set R3. x \<in> set R \<or> nextId w2 \<le> x" "\<forall>x \<in> set R3. x < nextId w3" "distinct R3"
    using p2 by (simp_all add: framed_def)
  have f12: "\<forall>x. x < nextId w1 \<longrightarrow> x \<notin> set E \<longrightarrow> elems w2 x = elems w1 x"
    and f23: "\<forall>x. x < nextId w2 \<longrightarrow> x \<notin> set R \<longrightarrow> elems w3 x = elems w2 x"
    using p1 p2 by (simp_all add: framed_def)
  have bE2: "b \<notin> set E2" using E2(1) bE(1) w1(3) by fastforce
  have bR3: "b \<notin> set R3" using R3(1) bE(2) w1(3) n12 by fastforce
  have E2R: "x \<notin> set R" if "x \<in> set E2" for x
    using E2(1) that ER lt(2) w1(1) by fastforce
  have E2R3: "set E2 \<inter> set R3 = {}"
  proof -
    have "x \<notin> set R3" if "x \<in> set E2" for x
      using R3(1) E2R[OF that] E2(2) that by fastforce
    then show ?thesis by auto
  qed
  show 3: "\<forall>x \<in> set E2. elems w3 x = elems w2 x"
    using f23 E2(2) E2R by blast
  show 2: "elems w3 b = elems w1 b"
    using f12 f23 bE w1(3) n12 by (metis le_trans less_le_trans not_le order_refl)
  have d: "distinct (b # E2 @ R3)" using bE2 bR3 E2R3 E2(3) R3(3) by simp
  have l: "\<forall>e \<in> set (b # E2 @ R3). e < nextId w3"
    using w1(3) E2(2) R3(2) n12 n23 by fastforce
  have fr: "\<forall>x. x < nextId w \<longrightarrow> x \<notin> set (opt pb @ E @ R) \<longrightarrow> elems w3 x = elems w x"
  proof (intro allI impI)
    fix x assume x: "x < nextId w" "x \<notin> set (opt pb @ E @ R)"
    have "x \<noteq> b" using x b by auto
    then have "elems w1 x = elems w x" using w1(2) by simp
    moreover have "elems w2 x = elems w1 x" using f12 x w1(1) by simp
    moreover have "elems w3 x = elems w2 x" using f23 x w1(1) n12 by simp
    ultimately show "elems w3 x = elems w x" by simp
  qed
  have nw: "\<forall>x \<in> set (b # E2 @ R3). x \<in> set (opt pb @ E @ R) \<or> nextId w \<le> x"
    using b E2(1) R3(1) w1(1) n12 by fastforce
  show "framed (opt pb @ E @ R) (b # E2 @ R3) w w3"
    unfolding framed_def using d l fr nw w1(1) n12 n23 by (intro conjI) simp_all
qed


lemma draw_step:
  assumes pre: "distinct (e # opt cb @ opt hb @ L)" "\<forall>x \<in> set (e # opt cb @ opt hb @ L). x < nextId w"
    and v: "cb = Some v \<or> (cb = None \<and> v = nextId w)"
    and wv: "nextId w \<le> nextId wv" "v < nextId wv"
    and h: "hb = Some h \<or> (hb = None \<and> h = nextId wv)"
    and wh: "nextId wv \<le> nextId wh" "h < nextId wh"
    and f1: "\<forall>x. x \<noteq> e \<longrightarrow> elems w1 x = elems w x"
    and fv: "\<forall>x. x \<noteq> v \<longrightarrow> elems wv x = elems w1 x"
    and fh: "\<forall>x. x \<noteq> h \<longrightarrow> elems wh x = elems wv x"
    and p: "framed L L3 wh w3"
  shows "framed (e # opt cb @ opt hb @ L) (e # v # h # L3) w w3"
    and "elems w3 e = elems w1 e" and "elems w3 v = elems wv v" and "elems w3 h = elems wh h"
proof -
  have lt: "e < nextId w" "\<forall>x \<in> set L. x < nextId w" using pre by auto
  have ltv: "e < nextId wv" "\<forall>x \<in> set L. x < nextId wv" using lt wv(1) by auto
  have ev: "e \<noteq> v" and eh: "e \<noteq> h" and vh: "v \<noteq> h"
    using pre v h wv ltv by auto
  have eL: "e \<notin> set L" and vL: "v \<notin> set L" and hL: "h \<notin> set L"
    using pre v h wv ltv by auto
  have n3: "nextId wh \<le> nextId w3" using p by (simp add: framed_def)
  have L3: "\<forall>x \<in> set L3. x \<in> set L \<or> nextId wh \<le> x" "\<forall>x \<in> set L3. x < nextId w3" "distinct L3"
    using p by (simp_all add: framed_def)
  have f3: "\<forall>x. x < nextId wh \<longrightarrow> x \<notin> set L \<longrightarrow> elems w3 x = elems wh x"
    using p by (simp add: framed_def)
  have elt: "e < nextId wh" using lt(1) wv(1) wh(1) by simp
  have vlt: "v < nextId wh" using wv(2) wh(1) by simp
  show e3: "elems w3 e = elems w1 e" using f3 elt eL fv fh ev eh by simp
  show v3: "elems w3 v = elems wv v" using f3 vlt vL fh vh by simp
  show h3: "elems w3 h = elems wh h" using f3 wh(2) hL by simp
  have eL3: "e \<notin> set L3" using L3(1) eL elt by fastforce
  have vL3: "v \<notin> set L3" using L3(1) vL vlt by fastforce
  have hL3: "h \<notin> set L3" using L3(1) hL wh(2) by fastforce
  have d: "distinct (e # v # h # L3)" using ev eh vh eL3 vL3 hL3 L3(3) by simp
  have l: "\<forall>x \<in> set (e # v # h # L3). x < nextId w3"
    using elt vlt wh(2) n3 L3(2) by fastforce
  have fr: "\<forall>x. x < nextId w \<longrightarrow> x \<notin> set (e # opt cb @ opt hb @ L) \<longrightarrow> elems w3 x = elems w x"
  proof (intro allI impI)
    fix x assume x: "x < nextId w" "x \<notin> set (e # opt cb @ opt hb @ L)"
    have "x \<noteq> e" "x \<noteq> v" "x \<noteq> h" using x v h wv(1) by auto
    then have "elems wh x = elems w x" using f1 fv fh by simp
    moreover have "elems w3 x = elems wh x" using f3 x wv(1) wh(1) by simp
    ultimately show "elems w3 x = elems w x" by simp
  qed
  have nw: "\<forall>x \<in> set (e # v # h # L3). x \<in> set (e # opt cb @ opt hb @ L) \<or> nextId w \<le> x"
    using v h L3(1) wv(1) wh(1) by fastforce
  show "framed (e # opt cb @ opt hb @ L) (e # v # h # L3) w w3"
    unfolding framed_def using d l fr nw wv(1) wh(1) n3 by (intro conjI) simp_all
qed


lemma positionBar_bounds:
  assumes "positionBar c g bar cls w = (b, wb)" and "\<forall>x \<in> set (opt bar). x < nextId w"
  shows "bar = Some b \<or> (bar = None \<and> b = nextId w)"
    and "nextId w \<le> nextId wb" and "b < nextId wb"
    and "\<forall>x. x \<noteq> b \<longrightarrow> elems wb x = elems w x"
    and "\<exists>r. elems wb b = (g r)\<lparr>parentNode := Some c\<rparr>"
  using assms positionBar_spec[where c = c and g = g and bar = bar and cls = cls and w = w]
  by (auto split: option.splits)

lemma framed_same: "distinct E \<Longrightarrow> \<forall>x \<in> set E. x < nextId w \<Longrightarrow> nextId w' = nextId w \<Longrightarrow>
    \<forall>x. x \<notin> set E \<longrightarrow> elems w' x = elems w x \<Longrightarrow> framed E E w w'"
  by (simp add: framed_def)

lemma draw_settles:
  "draw c vp n w = Some (n', w', vp') \<Longrightarrow> distinct (ownElems n) \<Longrightarrow>
     \<forall>e \<in> set (ownElems n). e < nextId w \<Longrightarrow>
     settled c vp n' w' \<and> framed (ownElems n) (ownElems n') w w'"
  "drawEach c vp cs w = Some (cs', w', vp') \<Longrightarrow> distinct (listElems cs) \<Longrightarrow>
     \<forall>e \<in> set (listElems cs). e < nextId w \<Longrightarrow>
     settledEach c vp cs' w' \<and> framed (listElems cs) (listElems cs') w w'"
proof (induction c vp n w and c vp cs w arbitrary: n' w' vp' and cs' w' vp' rule: draw_drawEach.induct)
  case (1 container vp f cs w)
  from "1.prems"(1) obtain f1 w1 where pe: "placeElement container vp f w = Some (f1, w1)"
    by (auto split: option.splits)
  from placeElement_spec[OF pe] obtain e where e: "representation f = Some e"
    and cls: "className (elems w1 e) = nodeClass f"
    and pl: "placedAt container (vp_x vp) (vp_y vp) (elems w1 e)"
    and fr1: "\<forall>x. x \<noteq> e \<longrightarrow> elems w1 x = elems w x"
    and nx1: "nextId w1 = nextId w"
    and f1: "f1 = f\<lparr>lastContainer := Some container, lastViewport := Some vp\<rparr>"
    by auto
  show ?case
  proof (cases "0 < length cs")
    case False
    then have res: "n' = Node f1 []" "w' = w1" "cs = []" using "1.prems"(1) pe by auto
    have "framed (ownElems (Node f cs)) (ownElems (Node f cs)) w w1"
      using "1.prems"(2,3) nx1 fr1 e res(3) by (intro framed_same) auto
    then show ?thesis using res e cls pl f1 by (simp add: nodeClass_def)
  next
    case True
    obtain tw lw n1 where lp: "layoutPass (Node f1 cs) = (tw, lw, n1)" by (metis prod_cases3)
    define gV where "gV = (\<lambda>r::element. r\<lparr>style_left := Some (vp_x vp + NODE_WIDTH / 2),
                         style_top := Some (vp_y vp + NODE_HEIGHT)\<rparr>)"
    define gH where "gH = (\<lambda>r::element. r\<lparr>style_width := Some (tw - lw),
                         style_left := Some (vp_x vp + NODE_WIDTH / 2),
                         style_top := Some (vp_y vp + NODE_HEIGHT + NODE_MARGIN_Y / 2)\<rparr>)"
    obtain v wv where pv: "positionBar container gV (childBar (attrs n1)) ''vertical'' w1 = (v, wv)"
      by fastforce
    obtain h wh where ph: "positionBar container gH (horizontalBar (attrs n1)) ''horizontal'' wv = (h, wh)"
      by fastforce
    define n2 where "n2 = Node ((attrs n1)\<lparr>childBar := Some v, horizontalBar := Some h\<rparr>) (children n1)"
    have pb: "placeBars container vp (Node f1 cs) w1 = (n2, wh)"
      by (simp add: placeBars_eq lp pv[unfolded gV_def] ph[unfolded gH_def] n2_def)
    from "1.prems"(1) pe True pb obtain cs3 where
      de: "drawEach container (vp\<lparr>vp_y := vp_y vp + (NODE_HEIGHT + NODE_MARGIN_Y)\<rparr>) (children n2) wh = Some (cs3, w', vp')"
      and n': "n' = Node (attrs n2) cs3"
      by (auto simp: Let_def split: option.splits)
    have ne: "children (Node f1 cs) \<noteq> []" using True by simp
    note ls = layoutPass_spec[OF ne, unfolded lp, simplified]
    have a1: "attrs n1 = f1\<lparr>requiredWidth := tw\<rparr>" using ls(1) .
    have bars: "childBar (attrs n1) = childBar f" "horizontalBar (attrs n1) = horizontalBar f"
      using a1 f1 by simp_all
    have own: "ownElems (Node f cs) = e # opt (childBar f) @ opt (horizontalBar f) @ listElems cs"
      using e by simp
    have pre: "distinct (e # opt (childBar f) @ opt (horizontalBar f) @ listElems cs)"
      "\<forall>x \<in> set (e # opt (childBar f) @ opt (horizontalBar f) @ listElems cs). x < nextId w"
      using "1.prems"(2,3) own by simp_all
    have bv: "\<forall>x \<in> set (opt (childBar (attrs n1))). x < nextId w1"
      using pre(2) bars nx1 by simp
    note V = positionBar_bounds[OF pv bv]
    have "\<forall>x \<in> set (opt (horizontalBar f)). x < nextId w" using pre(2) by simp
    then have bh: "\<forall>x \<in> set (opt (horizontalBar (attrs n1))). x < nextId wv"
      using bars nx1 V(2) by (metis less_le_trans)
    note H = positionBar_bounds[OF ph bh]
    have kids: "listElems (children n2) = listElems cs" using ls(3) by (simp add: n2_def)
    have d2: "distinct (listElems (children n2))" using pre(1) kids by simp
    have "\<forall>x \<in> set (listElems cs). x < nextId w" using pre(2) by simp
    then have l2: "\<forall>x \<in> set (listElems (children n2)). x < nextId wh"
      using kids nx1 V(2) H(2) by (metis less_le_trans)
    from "1.IH"[OF pe refl True refl pb[symmetric] refl de d2 l2]
    have se: "settledEach container (vp\<lparr>vp_y := vp_y vp + (NODE_HEIGHT + NODE_MARGIN_Y)\<rparr>) cs3 w'"
      and fr: "framed (listElems cs) (listElems cs3) wh w'"
      using kids by simp_all
    note S = draw_step[OF pre V(1)[unfolded bars nx1] V(2)[unfolded nx1] V(3)
        H(1)[unfolded bars] H(2) H(3) fr1 V(4) H(4) fr]
    have own': "ownElems n' = e # v # h # listElems cs3"
      using n' e a1 f1 by (simp add: n2_def)
    have wd: "map (\<lambda>x. requiredWidth (attrs x)) cs3 = map (\<lambda>x. fst (getRequiredWidth x)) (children n1)"
      using drawEach_widths[OF de] by (simp add: n2_def)
    then have len: "length cs3 = length cs" using ls(4) by (metis length_map)
    then have ne3: "cs3 \<noteq> []" using True by auto
    have ne1: "children n1 \<noteq> []" using ls(4) True by auto
    have "requiredWidth (attrs (last cs3)) = fst (getRequiredWidth (last (children n1)))"
      using wd ne3 ne1 by (metis (no_types, lifting) last_map)
    then have lastw: "requiredWidth (attrs (last cs3)) = lw" using ls(5) by simp
    obtain rv where rv: "elems wv v = (gV rv)\<lparr>parentNode := Some container\<rparr>" using V(5) by auto
    obtain rh where rh: "elems wh h = (gH rh)\<lparr>parentNode := Some container\<rparr>" using H(5) by auto
    have sv: "placedAt container (vp_x vp + NODE_WIDTH / 2) (vp_y vp + NODE_HEIGHT) (elems w' v)"
      using S(3) rv by (simp add: placedAt_def gV_def)
    have sh: "style_width (elems w' h) = Some (tw - lw)"
      "placedAt container (vp_x vp + NODE_WIDTH / 2) (vp_y vp + NODE_HEIGHT + NODE_MARGIN_Y / 2) (elems w' h)"
      using S(4) rh by (simp_all add: placedAt_def gH_def)
    have srep: "className (elems w' e) = nodeClass f" "placedAt container (vp_x vp) (vp_y vp) (elems w' e)"
      using S(2) cls pl by simp_all
    have "settled container vp n' w'"
      using n' e a1 f1 ne3 ls(2) sv sh srep se lastw
      by (simp add: n2_def nodeClass_def)
    then show ?thesis using S(1) own own' by simp
  qed
next
  case (2 container vp w)
  then show ?case by (simp add: framed_def)
next
  case (3 container vp ch cs w)
  obtain rw c0 where g: "getRequiredWidth ch = (rw, c0)" by fastforce
  define gB where "gB = (\<lambda>r::element. r\<lparr>style_left := Some (vp_x vp + NODE_WIDTH / 2),
                         style_top := Some (vp_y vp - NODE_MARGIN_Y / 2)\<rparr>)"
  obtain b wb where pbar: "positionBar container gB (parentBar (attrs c0)) ''vertical'' w = (b, wb)"
    by fastforce
  define c1 where "c1 = Node ((attrs c0)\<lparr>parentBar := Some b\<rparr>) (children c0)"
  have pp: "placeParentBar container vp ch w = (rw, c1, wb)"
    by (simp add: placeParentBar_eq g pbar[unfolded gB_def] c1_def)
  from "3.prems"(1) pp obtain c2 w2 vpc cs3 where
    d: "draw container \<lparr>vp_x = vp_x vp, vp_y = vp_y vp\<rparr> c1 wb = Some (c2, w2, vpc)"
    and de: "drawEach container (vp\<lparr>vp_x := vp_x vp + (rw + NODE_MARGIN_X)\<rparr>) cs w2 = Some (cs3, w', vp')"
    and cs': "cs' = c2 # cs3"
    by (auto simp: Let_def split: option.splits)
  have a0: "attrs c0 = (attrs ch)\<lparr>requiredWidth := rw\<rparr>"
    using getRequiredWidth_attrs[of ch] g by simp
  have rw: "rw \<noteq> - 1" using getRequiredWidth_not_dirty[of ch] g by simp
  have o0: "ownElems c0 = ownElems ch" using ownElems_getRequiredWidth[of ch] g by simp
  have o1: "ownElems c1 = ownElems ch"
    using o0 by (simp add: c1_def ownElems_attrs[of c0])
  have pre: "distinct (opt (parentBar (attrs ch)) @ ownElems ch @ listElems cs)"
    "\<forall>e \<in> set (opt (parentBar (attrs ch)) @ ownElems ch @ listElems cs). e < nextId w"
    using "3.prems"(2,3) by simp_all
  have bb: "\<forall>x \<in> set (opt (parentBar (attrs c0))). x < nextId w"
    using pre(2) a0 by simp
  note B = positionBar_bounds[OF pbar bb]
  have d1: "distinct (ownElems c1)" using pre(1) o1 by simp
  have "\<forall>e \<in> set (ownElems ch). e < nextId w" using pre(2) by simp
  then have l1: "\<forall>e \<in> set (ownElems c1). e < nextId wb" using o1 B(2) by (metis less_le_trans)
  from "3.IH"(1)[OF refl pp[symmetric] refl d d1 l1]
  have s2: "settled container \<lparr>vp_x = vp_x vp, vp_y = vp_y vp\<rparr> c2 w2"
    and fr2: "framed (ownElems ch) (ownElems c2) wb w2"
    using o1 by simp_all
  have n2: "nextId wb \<le> nextId w2" using fr2 by (simp add: framed_def)
  have dr: "distinct (listElems cs)" using pre(1) by simp
  have "\<forall>e \<in> set (listElems cs). e < nextId w" using pre(2) by simp
  then have lr: "\<forall>e \<in> set (listElems cs). e < nextId w2" using B(2) n2 by (metis less_le_trans)
  from "3.IH"(2)[OF refl pp[symmetric] refl d refl refl de dr lr]
  have s3: "settledEach container (vp\<lparr>vp_x := vp_x vp + (rw + NODE_MARGIN_X)\<rparr>) cs3 w'"
    and fr3: "framed (listElems cs) (listElems cs3) w2 w'"
    by simp_all
  note S = drawEach_step[OF pre B(1)[unfolded a0, simplified] B(2) B(4) B(3) fr2 fr3]
  have pb2: "parentBar (attrs c2) = Some b" using draw_fields(4)[OF d] by (simp add: c1_def)
  have w2': "requiredWidth (attrs c2) = rw"
    using draw_fields(5)[OF d] rw a0 by (simp add: c1_def)
  obtain r where r: "elems wb b = (gB r)\<lparr>parentNode := Some container\<rparr>" using B(5) by auto
  have sb: "placedAt container (vp_x vp + NODE_WIDTH / 2) (vp_y vp - NODE_MARGIN_Y / 2) (elems w' b)"
    using S(2) r by (simp add: placedAt_def gB_def)
  have "settled container \<lparr>vp_x = vp_x vp, vp_y = vp_y vp\<rparr> c2 w'"
    using S(3) by (intro settled_frame(1)[OF s2]) simp
  then have "settledEach container vp cs' w'"
    using cs' pb2 w2' rw sb s3 by simp
  moreover have "listElems cs' = b # ownElems c2 @ listElems cs3" using cs' pb2 by simp
  ultimately show ?case using S(1) by simp
qed


lemma strip_children_empty: "strip n' = strip n \<Longrightarrow> (children n' = []) = (children n = [])"
  by (cases n; cases n') auto

text \<open>
  Claim C7. On a well-formed tree (every reachable tree is one, \<open>reachable_wellFormed\<close>
  below) \<open>draw\<close> returns, and a second \<open>draw\<close> with the same container and origin on what
  the first one left returns the same tree, the same world and the same viewport: no
  element is appended again (the child lists are part of the world), and every position
  and class is what the first call set.
\<close>

theorem draw_twice:
  assumes "wellFormed n w"
  shows "\<exists>n1 w1 vp1. draw container vp n w = Some (n1, w1, vp1)
           \<and> draw container vp n1 w1 = Some (n1, w1, vp1)
           \<and> settled container vp n1 w1"
proof -
  have rep: "everyNode hasRepresentation n" and d: "distinct (ownElems n)"
    and l: "\<forall>e \<in> set (ownElems n). e < nextId w"
    using assms by (simp_all add: wellFormed_def)
  obtain n1 w1 vp1 where d1: "draw container vp n w = Some (n1, w1, vp1)"
    using draw_succeeds(1)[OF rep, of container vp w] by auto
  have s: "settled container vp n1 w1" using draw_settles(1)[OF d1 d l] by simp
  obtain vp2 where d2: "draw container vp n1 w1 = Some (n1, w1, vp2)"
    using draw_settled(1)[OF s] by auto
  have "vp2 = vp1"
    using draw_viewport[OF d1] draw_viewport[OF d2] strip_children_empty[OF strip_draw(1)[OF d1]]
    by simp
  then show ?thesis using d1 d2 s by simp
qed

lemma sampleExpanded_wellFormed: "wellFormed (fst sampleExpanded) (snd sampleExpanded)"
proof -
  have o: "ownElems (fst sampleExpanded) = [1, 3, 5]"
    using sampleExpanded_attrs sampleExpanded_children
    by (cases "fst sampleExpanded") (simp add: freshFields_def)
  have n: "nextId (snd sampleExpanded) = 7"
    by (simp add: sample_defs expand_def Let_def split_beta createRepresentation_attrs)
  show ?thesis
    using o n sampleExpanded_everyRepresentation by (simp add: wellFormed_def)
qed

theorem draw_twice_witness:
  "wellFormed (fst sampleExpanded) (snd sampleExpanded)
   \<and> length (children (fst sampleExpanded)) = 2
   \<and> (\<exists>n1 w1 vp1. draw 0 \<lparr>vp_x = 0, vp_y = 0\<rparr> (fst sampleExpanded) (snd sampleExpanded) = Some (n1, w1, vp1)
           \<and> draw 0 \<lparr>vp_x = 0, vp_y = 0\<rparr> n1 w1 = Some (n1, w1, vp1))"
proof -
  have c: "length (children (fst sampleExpanded)) = 2" by (simp add: sampleExpanded_children)
  show ?thesis
    using draw_twice[OF sampleExpanded_wellFormed, of 0 "\<lparr>vp_x = 0, vp_y = 0\<rparr>"]
      sampleExpanded_wellFormed c by blast
qed


section \<open>Reachable trees are well formed\<close>

text \<open>
  \<open>allElems t\<close> adds the parent bar of the root to \<open>ownElems t\<close>. \<open>renews old new k k'\<close>: a step
  that takes the next identity from \<open>k\<close> to \<open>k'\<close> and the elements of a tree from \<open>old\<close> to \<open>new\<close>
  keeps them pairwise different and existing, every element of \<open>new\<close> being one of \<open>old\<close> or
  created by the step. Construction, \<open>expand\<close>, \<open>collapse\<close>, \<open>draw\<close> and \<open>invalidate\<close> are such
  steps, so every reachable tree is well formed in its world.
\<close>

definition allElems :: "DrawingTreeNode \<Rightarrow> nat list" where
  "allElems n = opt (parentBar (attrs n)) @ ownElems n"

definition renews :: "nat list \<Rightarrow> nat list \<Rightarrow> nat \<Rightarrow> nat \<Rightarrow> bool" where
  "renews old new k k' =
     (k \<le> k' \<and> distinct new \<and> (\<forall>x \<in> set new. x < k') \<and> (\<forall>x \<in> set new. x \<in> set old \<or> k \<le> x))"

definition allocated :: "DrawingTreeNode \<Rightarrow> world \<Rightarrow> bool" where
  "allocated n w =
     (everyNode hasRepresentation n \<and> distinct (allElems n) \<and>
      (\<forall>e \<in> set (allElems n). e < nextId w))"

lemma allocated_wellFormed: "allocated n w \<Longrightarrow> wellFormed n w"
  by (simp add: allocated_def wellFormed_def allElems_def)

lemma listElems_Cons: "listElems (c # cs) = allElems c @ listElems cs"
  by (simp add: allElems_def)

lemma renews_same: "distinct A \<Longrightarrow> \<forall>x \<in> set A. x < k \<Longrightarrow> renews A A k k"
  by (simp add: renews_def)

lemma renews_trans:
  assumes "renews A B k k1" "renews B C k1 k2"
  shows "renews A C k k2"
proof -
  have "x \<in> set A \<or> k \<le> x" if "x \<in> set C" for x
  proof -
    have "x \<in> set B \<or> k1 \<le> x" using assms(2) that by (simp add: renews_def)
    then show ?thesis using assms(1) by (auto simp: renews_def)
  qed
  then show ?thesis using assms by (simp add: renews_def)
qed

lemma renews_mono: "renews A B k k1 \<Longrightarrow> k1 \<le> k2 \<Longrightarrow> renews A B k k2"
  by (auto simp: renews_def)

lemma renews_context:
  assumes "distinct (X @ E @ Y)" "\<forall>e \<in> set (X @ E @ Y). e < k" "renews E E' k k'"
  shows "renews (X @ E @ Y) (X @ E' @ Y) k k'"
proof -
  have kk: "k \<le> k'" and dE: "distinct E'" and lE: "\<forall>x \<in> set E'. x < k'"
    and oE: "\<forall>x \<in> set E'. x \<in> set E \<or> k \<le> x"
    using assms(3) by (simp_all add: renews_def)
  have dX: "distinct X" "distinct Y" "set X \<inter> set Y = {}" "set X \<inter> set E = {}" "set E \<inter> set Y = {}"
    using assms(1) by auto
  have lX: "\<forall>x \<in> set X. x < k" "\<forall>x \<in> set Y. x < k" using assms(2) by auto
  have XE: "x \<notin> set X" "x \<notin> set Y" if "x \<in> set E'" for x
  proof -
    from oE that have "x \<in> set E \<or> k \<le> x" by blast
    then show "x \<notin> set X" using dX(4) lX(1) by (auto simp: disjoint_iff)
    from \<open>x \<in> set E \<or> k \<le> x\<close> show "x \<notin> set Y" using dX(5) lX(2) by (auto simp: disjoint_iff)
  qed
  have 1: "distinct (X @ E' @ Y)" using dX dE XE by (auto simp: disjoint_iff)
  have 2: "\<forall>x \<in> set (X @ E' @ Y). x < k'"
  proof
    fix x assume "x \<in> set (X @ E' @ Y)"
    then consider "x \<in> set X" | "x \<in> set E'" | "x \<in> set Y" by auto
    then show "x < k'" using lX lE kk by cases (auto intro: less_le_trans)
  qed
  have 3: "\<forall>x \<in> set (X @ E' @ Y). x \<in> set (X @ E @ Y) \<or> k \<le> x" using oE by auto
  show ?thesis unfolding renews_def using kk 1 2 3 by blast
qed

lemma renews_fresh_append:
  assumes "renews [] A k k1" "renews [] B k1 k2"
  shows "renews [] (A @ B) k k2"
proof -
  have A: "\<forall>x \<in> set A. k \<le> x \<and> x < k1" "distinct A" "k \<le> k1"
    using assms(1) by (auto simp: renews_def)
  have B: "\<forall>x \<in> set B. k1 \<le> x \<and> x < k2" "distinct B" "k1 \<le> k2"
    using assms(2) by (auto simp: renews_def)
  have "set A \<inter> set B = {}" using A(1) B(1) by fastforce
  then show ?thesis using A B by (auto simp: renews_def)
qed

lemma renews_replace_tail:
  assumes "distinct (X @ L)" "\<forall>e \<in> set (X @ L). e < k" "renews [] L' k k'"
  shows "renews (X @ L) (X @ L') k k'"
proof -
  have "renews L L' k k'" using assms(3) by (auto simp: renews_def)
  then show ?thesis using renews_context[of X L "[]" k L' k'] assms(1,2) by simp
qed


lemma renews_single: "k < k' \<Longrightarrow> renews [] [k] k k'"
  by (simp add: renews_def)

lemma new_renews:
  "\<forall>w. renews [] (allElems (fst (new_DrawingTreeNode b w))) (nextId w)
          (nextId (snd (new_DrawingTreeNode b w)))
        \<and> everyNode hasRepresentation (fst (new_DrawingTreeNode b w))"
  "\<forall>r w. renews [] (listElems (fst (constructEach r xs w))) (nextId w)
            (nextId (snd (constructEach r xs w)))
          \<and> (\<forall>c \<in> set (fst (constructEach r xs w)). everyNode hasRepresentation c)"
proof (induction b and xs rule: backing_induct)
  case (new i kids)
  show ?case
  proof
    fix w :: world
    define f where "f = freshFields (Backing i kids)"
    define w1 where "w1 = w\<lparr>getChildrenCalls := getChildrenCalls w @ [i]\<rparr>"
    define w2 where "w2 = snd (createRepresentation f w1)"
    define f1 where "f1 = f\<lparr>representation := Some (nextId w)\<rparr>"
    define cs where "cs = fst (constructEach False kids w2)"
    define w3 where "w3 = snd (constructEach False kids w2)"
    have n2: "nextId w2 = Suc (Suc (nextId w))" by (simp add: w2_def w1_def)
    have res: "new_DrawingTreeNode (Backing i kids) w =
      (if drawingTreeNodeIsExpanded w2 i
       then (Node (f1\<lparr>isExpanded := True\<rparr>) cs, setExpandedSlot (Backing i kids) True w3)
       else (Node f1 [], w2))"
      by (simp add: Let_def split_beta f_def w1_def w2_def f1_def cs_def w3_def freshFields_def
          createRepresentation_attrs)
    have r1: "renews [] [nextId w] (nextId w) (nextId w2)" using n2 by (intro renews_single) simp
    have r2: "renews [] (listElems cs) (nextId w2) (nextId w3)"
      and h2: "\<forall>c \<in> set cs. everyNode hasRepresentation c"
      using new by (simp_all add: cs_def w3_def)
    have r3: "renews [] ([nextId w] @ listElems cs) (nextId w) (nextId w3)"
      by (rule renews_fresh_append[OF r1 r2])
    show "renews [] (allElems (fst (new_DrawingTreeNode (Backing i kids) w))) (nextId w)
          (nextId (snd (new_DrawingTreeNode (Backing i kids) w)))
        \<and> everyNode hasRepresentation (fst (new_DrawingTreeNode (Backing i kids) w))"
      unfolding res using r1 r3 h2
      by (simp add: allElems_def f1_def f_def freshFields_def hasRepresentation_def)
  qed
next
  case nil
  show ?case by (simp add: renews_def)
next
  case (cons i kids xs)
  show ?case
  proof (intro allI)
    fix r and w :: world
    define b where "b = Backing i kids"
    define node where "node = fst (new_DrawingTreeNode b w)"
    define w1 where "w1 = snd (new_DrawingTreeNode b w)"
    define cs where "cs = fst (constructEach True kids w1)"
    define w2 where "w2 = (if r then setExpandedSlot b True (snd (constructEach True kids w1)) else w1)"
    define node' where "node' = (if r then Node ((attrs node)\<lparr>isExpanded := True\<rparr>) cs else node)"
    define rest where "rest = fst (constructEach r xs w2)"
    define w3 where "w3 = snd (constructEach r xs w2)"
    have res: "constructEach r (b # xs) w = (node' # rest, w3)"
      by (simp add: b_def node_def w1_def w2_def node'_def w3_def cs_def rest_def Let_def split_beta
          del: new_DrawingTreeNode.simps)
    have r1: "renews [] (allElems node) (nextId w) (nextId w1)"
      and h1: "everyNode hasRepresentation node"
      using cons(1) by (simp_all add: node_def w1_def b_def)
    have lt: "nextId w < nextId w1" using new_extends(1)[of b] by (simp add: w1_def)
    have a: "attrs node = (freshFields b)\<lparr>representation := Some (nextId w),
                      isExpanded := (getChildren b = [] \<or> drawingTreeNodeIsExpanded w (bid b))\<rparr>"
      by (simp add: node_def new_DrawingTreeNode_attrs del: new_DrawingTreeNode.simps)
    have r1': "renews [] (allElems node') (nextId w) (nextId w2)"
      and h1': "everyNode hasRepresentation node'"
    proof -
      show "renews [] (allElems node') (nextId w) (nextId w2)"
      proof (cases r)
        case False
        then show ?thesis using r1 by (simp add: node'_def w2_def)
      next
        case True
        have "renews [] (listElems cs) (nextId w1) (nextId (snd (constructEach True kids w1)))"
          using cons(2) by (simp add: cs_def)
        then have "renews [] ([nextId w] @ listElems cs) (nextId w) (nextId (snd (constructEach True kids w1)))"
          by (intro renews_fresh_append[OF renews_single[OF lt]])
        then show ?thesis using True a
          by (simp add: node'_def w2_def allElems_def freshFields_def)
      qed
      show "everyNode hasRepresentation node'"
      proof (cases r)
        case False
        then show ?thesis using h1 by (simp add: node'_def)
      next
        case True
        have "\<forall>c \<in> set cs. everyNode hasRepresentation c" using cons(2) by (simp add: cs_def)
        then show ?thesis using True a by (simp add: node'_def hasRepresentation_def)
      qed
    qed
    have r3: "renews [] (listElems rest) (nextId w2) (nextId w3)"
      and h3: "\<forall>c \<in> set rest. everyNode hasRepresentation c"
      using cons(3) by (simp_all add: rest_def w3_def)
    have "renews [] (allElems node' @ listElems rest) (nextId w) (nextId w3)"
      by (rule renews_fresh_append[OF r1' r3])
    then show "renews [] (listElems (fst (constructEach r (Backing i kids # xs) w))) (nextId w)
            (nextId (snd (constructEach r (Backing i kids # xs) w)))
          \<and> (\<forall>c \<in> set (fst (constructEach r (Backing i kids # xs) w)). everyNode hasRepresentation c)"
      using res h1' h3 unfolding b_def[symmetric] by (simp add: listElems_Cons del: listElems.simps)
  qed
qed


lemma allElems_attrs:
  "allElems n = opt (parentBar (attrs n)) @ opt (representation (attrs n)) @
     opt (childBar (attrs n)) @ opt (horizontalBar (attrs n)) @ listElems (children n)"
  by (cases n) (simp add: allElems_def)

lemma expand_renews:
  assumes "distinct (allElems n)" "\<forall>e \<in> set (allElems n). e < nextId w"
  shows "renews (allElems n) (allElems (fst (expand r n w))) (nextId w) (nextId (snd (expand r n w)))"
proof -
  define P where "P = opt (parentBar (attrs n)) @ opt (representation (attrs n)) @
     opt (childBar (attrs n)) @ opt (horizontalBar (attrs n))"
  have old: "allElems n = P @ listElems (children n)" by (simp add: allElems_attrs[of n] P_def)
  have new: "allElems (fst (expand r n w)) = P @ listElems (fst (constructEach r (nodeChildren (attrs n)) w))"
    by (simp add: allElems_def expand_def split_beta P_def)
  have "renews [] (listElems (fst (constructEach r (nodeChildren (attrs n)) w))) (nextId w)
      (nextId (snd (constructEach r (nodeChildren (attrs n)) w)))"
    using new_renews(2)[of "nodeChildren (attrs n)"] by simp
  then have "renews (P @ listElems (children n)) (P @ listElems (fst (constructEach r (nodeChildren (attrs n)) w)))
      (nextId w) (nextId (snd (constructEach r (nodeChildren (attrs n)) w)))"
    using assms old by (intro renews_replace_tail) simp_all
  then show ?thesis using old new by (simp add: expand_def split_beta)
qed

lemma expand_hasRepresentation:
  "hasRepresentation (attrs n) \<Longrightarrow> everyNode hasRepresentation (fst (expand r n w))"
  using new_renews(2)[of "nodeChildren (attrs n)"]
  by (simp add: expand_def split_beta hasRepresentation_def)

lemma renews_bar:
  assumes "distinct (X @ opt bo @ Y)" "\<forall>e \<in> set (X @ opt bo @ Y). e < k"
    and "(bo = Some b \<and> k' = k) \<or> (bo = None \<and> b = k \<and> k' = Suc k)"
  shows "renews (X @ opt bo @ Y) (X @ [b] @ Y) k k'"
proof -
  have "renews (opt bo) [b] k k'" using assms(2,3) by (auto simp: renews_def)
  then show ?thesis using assms(1,2) by (rule renews_context[rotated 2])
qed

lemma renews_pre: "renews A B k k' \<Longrightarrow> distinct B \<and> (\<forall>e \<in> set B. e < k')"
  by (simp add: renews_def)

lemma getBar_cases:
  "(parentBar f = Some (fst (getParentBar f w)) \<and> nextId (snd (snd (getParentBar f w))) = nextId w)
   \<or> (parentBar f = None \<and> fst (getParentBar f w) = nextId w
       \<and> nextId (snd (snd (getParentBar f w))) = Suc (nextId w))"
  "(childBar f = Some (fst (getChildBar f w)) \<and> nextId (snd (snd (getChildBar f w))) = nextId w)
   \<or> (childBar f = None \<and> fst (getChildBar f w) = nextId w
       \<and> nextId (snd (snd (getChildBar f w))) = Suc (nextId w))"
  "(horizontalBar f = Some (fst (getHorizontalBar f w)) \<and> nextId (snd (snd (getHorizontalBar f w))) = nextId w)
   \<or> (horizontalBar f = None \<and> fst (getHorizontalBar f w) = nextId w
       \<and> nextId (snd (snd (getHorizontalBar f w))) = Suc (nextId w))"
  by (auto simp: getParentBar_def getChildBar_def getHorizontalBar_def createElement_def split_beta
      split: option.splits)


lemma renews_sub:
  "distinct (X @ Y) \<Longrightarrow> \<forall>e \<in> set (X @ Y). e < k \<Longrightarrow> renews (X @ Y) X k k"
  by (simp add: renews_def)

lemma removeOwn_renews:
  assumes "removeOwn r f w = Some (f1, w1)"
    and "distinct (opt (parentBar f) @ Y)" "\<forall>e \<in> set (opt (parentBar f) @ Y). e < nextId w"
  shows "renews (opt (parentBar f) @ Y) (opt (parentBar f1) @ Y) (nextId w) (nextId w1)"
    and "representation f1 = representation f" "childBar f1 = childBar f"
    and "horizontalBar f1 = horizontalBar f"
proof -
  show "renews (opt (parentBar f) @ Y) (opt (parentBar f1) @ Y) (nextId w) (nextId w1)"
  proof (cases r)
    case False
    then show ?thesis using assms by (simp add: removeOwn_def renews_same)
  next
    case True
    then obtain e where e: "representation f = Some e"
      and f1: "f1 = fst (snd (getParentBar f (remove e w)))"
      and w1: "w1 = remove (fst (getParentBar f (remove e w))) (snd (snd (getParentBar f (remove e w))))"
      using assms(1) by (auto simp: removeOwn_def Let_def split_beta split: option.splits)
    have "renews ([] @ opt (parentBar f) @ Y) ([] @ [fst (getParentBar f (remove e w))] @ Y)
        (nextId w) (nextId w1)"
      using assms(2,3) getBar_cases(1)[of f "remove e w"]
      by (intro renews_bar) (simp_all add: w1)
    then show ?thesis by (simp add: f1 getBar_attrs)
  qed
  show "representation f1 = representation f" "childBar f1 = childBar f"
    "horizontalBar f1 = horizontalBar f"
    using assms(1)
    by (auto simp: removeOwn_def Let_def split_beta getBar_attrs split: option.splits if_splits)
qed

lemma removeBars_parentBar: "parentBar (fst (removeBars f w)) = parentBar f"
  by (simp add: removeBars_def Let_def split_beta getBar_attrs)

lemma removeBars_renews:
  assumes "distinct (X @ opt (childBar f) @ opt (horizontalBar f))"
    "\<forall>e \<in> set (X @ opt (childBar f) @ opt (horizontalBar f)). e < nextId w"
  shows "renews (X @ opt (childBar f) @ opt (horizontalBar f))
           (X @ opt (childBar (fst (removeBars f w))) @ opt (horizontalBar (fst (removeBars f w))))
           (nextId w) (nextId (snd (removeBars f w)))"
proof -
  define cb where "cb = fst (getChildBar f w)"
  define f1 where "f1 = fst (snd (getChildBar f w))"
  define w2 where "w2 = remove cb (snd (snd (getChildBar f w)))"
  define hb where "hb = fst (getHorizontalBar f1 w2)"
  define w3 where "w3 = remove hb (snd (snd (getHorizontalBar f1 w2)))"
  have res: "removeBars f w = (fst (snd (getHorizontalBar f1 w2)), w3)"
    by (simp add: removeBars_def Let_def split_beta cb_def f1_def w2_def hb_def w3_def)
  have f1: "f1 = f\<lparr>childBar := Some cb\<rparr>" by (simp add: f1_def cb_def getBar_attrs)
  have f2: "fst (removeBars f w) = f\<lparr>childBar := Some cb, horizontalBar := Some hb\<rparr>"
    by (simp add: res getBar_attrs f1 hb_def)
  have s2: "snd (removeBars f w) = w3" by (simp add: res)
  have r1: "renews (X @ opt (childBar f) @ opt (horizontalBar f)) (X @ [cb] @ opt (horizontalBar f))
      (nextId w) (nextId w2)"
    using assms getBar_cases(2)[of f w] by (intro renews_bar) (simp_all add: cb_def w2_def)
  note p = renews_pre[OF r1]
  have "renews ((X @ [cb]) @ opt (horizontalBar f1) @ []) ((X @ [cb]) @ [hb] @ [])
      (nextId w2) (nextId w3)"
    using p getBar_cases(3)[of f1 w2] by (intro renews_bar) (simp_all add: hb_def w3_def f1)
  then have r2: "renews (X @ [cb] @ opt (horizontalBar f)) (X @ [cb] @ [hb]) (nextId w2) (nextId w3)"
    by (simp add: f1)
  show ?thesis using renews_trans[OF r1 r2] s2 by (simp add: f2)
qed

lemma collapse_renews:
  assumes "collapse r n w = Some (n', w')"
    and "distinct (allElems n)" "\<forall>e \<in> set (allElems n). e < nextId w"
  shows "renews (allElems n) (allElems n') (nextId w) (nextId w')"
proof -
  obtain f cs where n: "n = Node f cs" by (cases n)
  from assms(1) n obtain f1 w1 w3 where ro: "removeOwn r f w = Some (f1, w1)"
    and ce: "collapseEach cs (snd (removeBars f1 w1)) = Some w3"
    and res: "(n', w') = resetCollapsed (fst (removeBars f1 w1)) w3"
    by (auto split: option.splits)
  define f2 where "f2 = fst (removeBars f1 w1)"
  define w2 where "w2 = snd (removeBars f1 w1)"
  define Y where "Y = opt (representation f) @ opt (childBar f) @ opt (horizontalBar f)"
  have L0: "allElems n = (opt (parentBar f) @ Y) @ listElems cs"
    using n by (simp add: allElems_def Y_def)
  have r0: "renews (allElems n) (opt (parentBar f) @ Y) (nextId w) (nextId w)"
    unfolding L0 using assms(2,3) L0 by (intro renews_sub) simp_all
  note p0 = renews_pre[OF r0]
  note o = removeOwn_renews[OF ro p0[THEN conjunct1] p0[THEN conjunct2]]
  have Y1: "Y = opt (representation f1) @ opt (childBar f1) @ opt (horizontalBar f1)"
    using o(2,3,4) by (simp add: Y_def)
  note p1 = renews_pre[OF o(1)]
  have "renews ((opt (parentBar f1) @ opt (representation f1)) @ opt (childBar f1) @ opt (horizontalBar f1))
      ((opt (parentBar f1) @ opt (representation f1)) @ opt (childBar f2) @ opt (horizontalBar f2))
      (nextId w1) (nextId w2)"
    unfolding f2_def w2_def using p1 by (intro removeBars_renews) (simp_all add: Y1)
  then have r2: "renews (opt (parentBar f1) @ Y)
      (opt (parentBar f2) @ opt (representation f2) @ opt (childBar f2) @ opt (horizontalBar f2))
      (nextId w1) (nextId w2)"
    using removeBars_fields(3)[of f1 w1] removeBars_parentBar[of f1 w1] by (simp add: Y1 f2_def)
  have n3: "nextId w2 \<le> nextId w3" using collapse_calls(2)[OF ce] by (simp add: w2_def)
  have a': "allElems n' = opt (parentBar f2) @ opt (representation f2) @ opt (childBar f2) @ opt (horizontalBar f2)"
    and w': "nextId w' = nextId w3"
    using res by (simp_all add: resetCollapsed_def Let_def allElems_def f2_def)
  show ?thesis
    using renews_mono[OF renews_trans[OF renews_trans[OF r0 o(1)] r2] n3] a' w' by simp
qed


lemma framed_renews: "framed A B w w' \<Longrightarrow> renews A B (nextId w) (nextId w')"
  by (simp add: framed_def renews_def)

lemma draw_renews:
  assumes "draw c vp n w = Some (n', w', vp')"
    and "distinct (allElems n)" "\<forall>e \<in> set (allElems n). e < nextId w"
  shows "renews (allElems n) (allElems n') (nextId w) (nextId w')"
proof -
  have d: "distinct (ownElems n)" and l: "\<forall>e \<in> set (ownElems n). e < nextId w"
    using assms(2,3) by (simp_all add: allElems_def)
  have "renews (ownElems n) (ownElems n') (nextId w) (nextId w')"
    using draw_settles(1)[OF assms(1) d l] by (simp add: framed_renews)
  then have "renews (opt (parentBar (attrs n)) @ ownElems n @ []) (opt (parentBar (attrs n)) @ ownElems n' @ [])
      (nextId w) (nextId w')"
    using assms(2,3) by (intro renews_context) (simp_all add: allElems_def)
  then show ?thesis using draw_fields(4)[OF assms(1)] by (simp add: allElems_def)
qed

lemma listElems_append: "listElems (xs @ ys) = listElems xs @ listElems ys"
  by (induction xs) simp_all

lemma listElems_split:
  "i < length cs \<Longrightarrow>
     listElems cs = listElems (take i cs) @ allElems (cs ! i) @ listElems (drop (Suc i) cs)"
proof -
  assume i: "i < length cs"
  have "cs = take i cs @ cs ! i # drop (Suc i) cs" using i by (rule id_take_nth_drop)
  then have "listElems cs = listElems (take i cs @ cs ! i # drop (Suc i) cs)" by simp
  then show ?thesis by (simp add: listElems_append allElems_def)
qed

lemma listElems_replace:
  "i < length cs \<Longrightarrow>
     listElems (cs[i := c]) = listElems (take i cs) @ allElems c @ listElems (drop (Suc i) cs)"
  using listElems_append[of "take i cs" "c # drop (Suc i) cs"]
  by (simp add: upd_conv_take_nth_drop allElems_def)

lemma callAt_renews:
  assumes m: "\<And>n w n' w'. m n w = Some (n', w') \<Longrightarrow> distinct (allElems n) \<Longrightarrow>
      \<forall>e \<in> set (allElems n). e < nextId w \<Longrightarrow>
      renews (allElems n) (allElems n') (nextId w) (nextId w')"
  shows "callAt p m t w = Some (t', w') \<Longrightarrow> distinct (allElems t) \<Longrightarrow>
      \<forall>e \<in> set (allElems t). e < nextId w \<Longrightarrow>
      renews (allElems t) (allElems t') (nextId w) (nextId w')"
proof (induction p arbitrary: t t')
  case Nil
  then show ?case using m by simp
next
  case (Cons i p)
  obtain f cs where t: "t = Node f cs" by (cases t)
  from Cons.prems(1) t obtain c where i: "i < length cs"
    and c: "callAt p m (cs ! i) w = Some (c, w')" and t': "t' = Node f (cs[i := c])"
    by (auto split: if_splits option.splits)
  define X where "X = opt (parentBar f) @ opt (representation f) @ opt (childBar f) @
     opt (horizontalBar f) @ listElems (take i cs)"
  define Y where "Y = listElems (drop (Suc i) cs)"
  have old: "allElems t = X @ allElems (cs ! i) @ Y"
    using t listElems_split[OF i] by (simp add: allElems_def X_def Y_def)
  have new: "allElems t' = X @ allElems c @ Y"
    using t' listElems_replace[OF i, of c] by (simp add: allElems_def X_def Y_def)
  have d: "distinct (allElems (cs ! i))" and l: "\<forall>e \<in> set (allElems (cs ! i)). e < nextId w"
    using Cons.prems(2,3) old by simp_all
  have "renews (allElems (cs ! i)) (allElems c) (nextId w) (nextId w')"
    by (rule Cons.IH[OF c d l])
  then show ?case
    unfolding old new using Cons.prems(2,3) old by (intro renews_context) simp_all
qed

lemma markDirty_renews:
  "markDirty n w = Some (n', w') \<Longrightarrow> distinct (allElems n) \<Longrightarrow>
      \<forall>e \<in> set (allElems n). e < nextId w \<Longrightarrow>
      renews (allElems n) (allElems n') (nextId w) (nextId w')"
proof -
  assume a: "markDirty n w = Some (n', w')" "distinct (allElems n)"
    "\<forall>e \<in> set (allElems n). e < nextId w"
  have "allElems n' = allElems n" "w' = w"
    using a(1) allElems_attrs[of n] allElems_attrs[of n'] by (auto simp: markDirty_def)
  then show ?thesis using a(2,3) by (simp add: renews_same)
qed

lemma redraw_renews:
  "redraw p n w = Some (n', w') \<Longrightarrow> distinct (allElems n) \<Longrightarrow>
      \<forall>e \<in> set (allElems n). e < nextId w \<Longrightarrow>
      renews (allElems n) (allElems n') (nextId w) (nextId w')"
  using draw_renews[where w = "w\<lparr>redrawCalls := redrawCalls w @ [p]\<rparr>" and n = n and n' = n' and w' = w']
  by (auto simp: redraw_def split: option.splits)

lemma invalidate_renews:
  "invalidate p t w = Some (t', w') \<Longrightarrow> distinct (allElems t) \<Longrightarrow>
      \<forall>e \<in> set (allElems t). e < nextId w \<Longrightarrow>
      renews (allElems t) (allElems t') (nextId w) (nextId w')"
proof (induction p t w rule: invalidate.induct)
  case (1 p tree w)
  from "1.prems"(1) obtain t1 w1 where md: "callAt p markDirty tree w = Some (t1, w1)"
    by (auto split: option.splits)
  have r1: "renews (allElems tree) (allElems t1) (nextId w) (nextId w1)"
    using callAt_renews[of markDirty p tree w t1 w1] markDirty_renews md "1.prems"(2,3) by blast
  note p1 = renews_pre[OF r1]
  have "renews (allElems t1) (allElems t') (nextId w1) (nextId w')"
  proof (cases "p = []")
    case True
    then have "callAt p (redraw p) t1 w1 = Some (t', w')" using "1.prems"(1) md by simp
    then show ?thesis
      using callAt_renews[of "redraw p" p t1 w1 t' w'] redraw_renews p1 by blast
  next
    case False
    then have "invalidate (butlast p) t1 w1 = Some (t', w')" using "1.prems"(1) md by simp
    then show ?thesis using "1.IH"[OF md refl False] p1 by simp
  qed
  then show ?case using r1 by (rule renews_trans[rotated])
qed


lemma hasRepresentation_draw:
  "draw c vp n w = Some (n', w', vp') \<Longrightarrow> everyNode hasRepresentation n \<Longrightarrow>
     everyNode hasRepresentation n'"
  using strip_draw(1)[of c vp n w n' w' vp'] hasRepresentation_strip[of n] hasRepresentation_strip[of n']
  by simp

lemma hasRepresentation_invalidate:
  assumes "invalidate p t w = Some (t', w')" "everyNode hasRepresentation t"
  shows "everyNode hasRepresentation t'"
proof (rule everyNode_invalidate[OF _ _ assms])
  fix n w n' w'
  assume "markDirty n w = Some (n', w')" "everyNode hasRepresentation n"
  then show "everyNode hasRepresentation n'"
    by (cases n) (auto simp: markDirty_def hasRepresentation_def)
next
  fix p n w n' w'
  assume "redraw p n w = Some (n', w')" "everyNode hasRepresentation n"
  then show "everyNode hasRepresentation n'"
    by (auto simp: redraw_def split: option.splits dest: hasRepresentation_draw)
qed

lemma hasRepresentation_expand:
  "everyNode hasRepresentation n \<Longrightarrow> everyNode hasRepresentation (fst (expand r n w))"
  by (cases n) (simp add: expand_hasRepresentation)

lemma hasRepresentation_collapse:
  "collapse r n w = Some (n', w') \<Longrightarrow> everyNode hasRepresentation n \<Longrightarrow>
     everyNode hasRepresentation n'"
  using collapse_result(1,5)[of r n w n' w']
  by (cases n; cases n') (simp add: hasRepresentation_def)

lemma expand_renews_some:
  "Some (expand r n w) = Some (n', w') \<Longrightarrow> distinct (allElems n) \<Longrightarrow>
     \<forall>e \<in> set (allElems n). e < nextId w \<Longrightarrow>
     renews (allElems n) (allElems n') (nextId w) (nextId w')"
  using expand_renews[of n w r] by (metis fst_conv option.inject snd_conv)

lemma hasRepresentation_expand_some:
  "Some (expand r n w) = Some (n', w') \<Longrightarrow> everyNode hasRepresentation n \<Longrightarrow>
     everyNode hasRepresentation n'"
  using hasRepresentation_expand[of n r w] by (metis fst_conv option.inject)

lemma allocated_step:
  "allocated n w \<Longrightarrow> renews (allElems n) (allElems n') (nextId w) (nextId w') \<Longrightarrow>
     everyNode hasRepresentation n' \<Longrightarrow> allocated n' w'"
  by (simp add: allocated_def renews_def)

lemma reachable_allocated: "reachable s \<Longrightarrow> allocated (fst s) (snd s)"
proof (induction rule: reachable.induct)
  case (constructed b w)
  then show ?case using new_renews(1)[of b] by (simp add: allocated_def renews_def)
next
  case (drawn t w container vp t' w' vp')
  have a: "allocated t w" using drawn by simp
  have r: "renews (allElems t) (allElems t') (nextId w) (nextId w')"
    using draw_renews[OF drawn(2)] a by (simp add: allocated_def)
  have h: "everyNode hasRepresentation t'"
    using hasRepresentation_draw[OF drawn(2)] a by (simp add: allocated_def)
  show ?case using allocated_step[OF a r h] by simp
next
  case (expanded t w p recurse s)
  have a: "allocated t w" using expanded by simp
  have c: "callAt p (\<lambda>n w. Some (expand recurse n w)) t w = Some (fst s, snd s)"
    using expanded by simp
  have r: "renews (allElems t) (allElems (fst s)) (nextId w) (nextId (snd s))"
    using a by (intro callAt_renews[OF expand_renews_some c]) (simp_all add: allocated_def)
  have h: "everyNode hasRepresentation (fst s)"
    using a by (intro everyNode_callAt[OF hasRepresentation_expand_some c]) (simp_all add: allocated_def)
  show ?case by (rule allocated_step[OF a r h])
next
  case (collapsed t w p removeSelf s)
  have a: "allocated t w" using collapsed by simp
  have c: "callAt p (collapse removeSelf) t w = Some (fst s, snd s)"
    using collapsed by simp
  have r: "renews (allElems t) (allElems (fst s)) (nextId w) (nextId (snd s))"
    using a by (intro callAt_renews[OF collapse_renews c]) (simp_all add: allocated_def)
  have h: "everyNode hasRepresentation (fst s)"
    using a by (intro everyNode_callAt[OF hasRepresentation_collapse c]) (simp_all add: allocated_def)
  show ?case by (rule allocated_step[OF a r h])
next
  case (invalidated t w p s)
  have a: "allocated t w" using invalidated by simp
  have c: "invalidate p t w = Some (fst s, snd s)" using invalidated by simp
  have r: "renews (allElems t) (allElems (fst s)) (nextId w) (nextId (snd s))"
    using invalidate_renews[OF c] a by (simp add: allocated_def)
  have h: "everyNode hasRepresentation (fst s)"
    using hasRepresentation_invalidate[OF c] a by (simp add: allocated_def)
  show ?case by (rule allocated_step[OF a r h])
qed

lemma reachable_wellFormed: "reachable (t, w) \<Longrightarrow> wellFormed t w"
  using reachable_allocated[of "(t, w)"] by (simp add: allocated_wellFormed)


lemma click_reachable:
  assumes "reachable (t, w)" "click ctrlKey p t w = Some s"
  shows "reachable s"
proof -
  from assms(2) obtain that where that: "nodeAt t p = Some that"
    by (auto simp: click_def split: option.splits)
  consider (expand) t1 w1 where "callAt p (\<lambda>n w. Some (expand ctrlKey n w)) t w = Some (t1, w1)"
      "invalidate p t1 w1 = Some s"
    | (collapse) t1 w1 where "callAt p (collapse False) t w = Some (t1, w1)"
      "invalidate p t1 w1 = Some s"
    | (nothing) "s = (t, w)"
    using assms(2) that
    by (auto simp: click_def simp del: invalidate.simps split: option.splits if_splits)
  then show ?thesis
  proof cases
    case expand
    have "reachable (t1, w1)" by (rule reachable.expanded[OF assms(1) expand(1)])
    then show ?thesis by (rule reachable.invalidated[OF _ expand(2)])
  next
    case collapse
    have "reachable (t1, w1)" by (rule reachable.collapsed[OF assms(1) collapse(1)])
    then show ?thesis by (rule reachable.invalidated[OF _ collapse(2)])
  next
    case nothing
    then show ?thesis using assms(1) by simp
  qed
qed

lemma BuildTree_reachable: "BuildTree container rootNode w = Some s \<Longrightarrow> reachable s"
proof -
  assume b: "BuildTree container rootNode w = Some s"
  define w2 where "w2 = modify container (\<lambda>r. r\<lparr>className := ''node-container''\<rparr>)
     ((fold (\<lambda>k. modify k (\<lambda>r. r\<lparr>parentNode := None\<rparr>)) (childNodes w container) w)
                 \<lparr>childNodes := (childNodes w)(container := [])\<rparr>)"
  have r: "reachable (fst (new_DrawingTreeNode rootNode w2), snd (new_DrawingTreeNode rootNode w2))"
    using reachable.constructed[of rootNode w2] by simp
  from b obtain vp where "draw container \<lparr>vp_x = 0, vp_y = 0\<rparr> (fst (new_DrawingTreeNode rootNode w2))
      (snd (new_DrawingTreeNode rootNode w2)) = Some (fst s, snd s, vp)"
    by (auto simp: BuildTree_def Let_def split_beta w2_def split: option.splits)
  then have "reachable (fst s, snd s)" by (rule reachable.drawn[OF r])
  then show ?thesis by simp
qed


section \<open>Widths while the program runs\<close>

text \<open>
  \<open>collapse\<close> stores \<open>0\<close> in the cached width, and the node keeps it until the field is
  written again. The program does not read the width in between. Nodes exist only inside
  the library (the constructor is local to the module), and \<open>collapse\<close> is called in two
  places: by the \<open>click\<close> listener, which calls \<open>invalidate\<close> on the same node next (lines 55
  and 56), so that the width is dirty before the redraw reads it; and by \<open>collapse\<close> itself on
  the children (line 121), which the next line drops from the tree.

  \<open>running\<close> are the states of the program between two events. \<open>BuildTree\<close> makes the
  first. After it a state changes by a click on the representation of a node (\<open>click\<close>),
  or by \<open>updateRepresentation\<close>, which the object returned by \<open>BuildTree\<close> calls on the root
  and the deferred work on the children of a node; it is allowed on any node here.
  \<open>floored\<close> is a cached width that is dirty or at least \<open>NODE_WIDTH\<close>.
\<close>

definition floored :: "vfields \<Rightarrow> bool" where
  "floored f = (requiredWidth f = - 1 \<or> NODE_WIDTH \<le> requiredWidth f)"

inductive running :: "DrawingTreeNode \<times> world \<Rightarrow> bool" where
  built: "BuildTree container rootNode w = Some s \<Longrightarrow> running s"
| clicked: "running (t, w) \<Longrightarrow> click ctrlKey p t w = Some s \<Longrightarrow> running s"
| refreshed: "running (t, w) \<Longrightarrow>
     callAt p (\<lambda>n w. Some (updateRepresentation p n w)) t w = Some s \<Longrightarrow> running s"

lemma everyNode_subtree:
  "everyNode P t \<Longrightarrow> nodeAt t p = Some n \<Longrightarrow> everyNode P n"
proof (induction p arbitrary: t)
  case Nil
  then show ?case by simp
next
  case (Cons i p)
  obtain f cs where t: "t = Node f cs" by (cases t)
  from Cons.prems(2) t have i: "i < length cs" and n: "nodeAt (cs ! i) p = Some n"
    by (auto split: if_splits)
  have "everyNode P (cs ! i)" using Cons.prems(1) i t by simp
  then show ?case using Cons.IH n by simp
qed

lemma floored_fields [simp]:
  "floored (f\<lparr>requiredWidth := x\<rparr>) = (x = - 1 \<or> NODE_WIDTH \<le> x)"
  "floored (f\<lparr>representation := r\<rparr>) = floored f"
  "floored (f\<lparr>isExpanded := b\<rparr>) = floored f"
  "floored (f\<lparr>childBar := e\<rparr>) = floored f"
  "floored (f\<lparr>horizontalBar := e\<rparr>) = floored f"
  "floored (f\<lparr>parentBar := e\<rparr>) = floored f"
  "floored (f\<lparr>lastContainer := e\<rparr>) = floored f"
  "floored (f\<lparr>lastViewport := v\<rparr>) = floored f"
  by (simp_all add: floored_def)

lemma callAt_nodeAt: "callAt p m t w = Some s \<Longrightarrow> nodeAt t p \<noteq> None"
proof (induction p arbitrary: t s)
  case Nil
  then show ?case by simp
next
  case (Cons i p)
  then show ?case by (cases t) (auto split: if_splits option.splits)
qed

lemma callAt_returns:
  "nodeAt t p = Some n \<Longrightarrow> m n w \<noteq> None \<Longrightarrow> callAt p m t w \<noteq> None"
proof (induction p arbitrary: t)
  case Nil
  then show ?case by simp
next
  case (Cons i p)
  then show ?case by (cases t) (auto split: if_splits option.splits)
qed

lemma floored_getRequiredWidth:
  "everyNode floored n \<Longrightarrow>
     everyNode floored (snd (getRequiredWidth n)) \<and> NODE_WIDTH \<le> fst (getRequiredWidth n)"
proof (induction n)
  case (Node f cs)
  show ?case
  proof (cases "requiredWidth f = - 1")
    case True
    have "\<forall>c \<in> set cs. everyNode floored (snd (getRequiredWidth c))"
      using Node by simp
    then show ?thesis using True
      by (simp add: getRequiredWidth_unfold Let_def)
  next
    case False
    then have "NODE_WIDTH \<le> requiredWidth f" using Node.prems by (simp add: floored_def)
    then show ?thesis using False Node.prems by (simp add: getRequiredWidth_unfold)
  qed
qed

lemma floored_update:
  "\<forall>c \<in> set cs. everyNode floored c \<Longrightarrow> (i < length cs \<Longrightarrow> everyNode floored c') \<Longrightarrow>
     \<forall>c \<in> set (cs[i := c']). everyNode floored c"
  by (cases "i < length cs") (auto simp: list_update_beyond dest: set_update_subset_insert[THEN subsetD])

lemma floored_placeBars:
  assumes "everyNode floored n"
  shows "everyNode floored (fst (placeBars c vp n w))"
proof -
  define cs1 where "cs1 = (children n)[0 := snd (getRequiredWidth (children n ! 0))]"
  define cs2 where "cs2 = cs1[length cs1 - 1 := snd (getRequiredWidth (cs1 ! (length cs1 - 1)))]"
  define n1 where "n1 = snd (getRequiredWidth (Node (attrs n) cs2))"
  have 0: "\<forall>x \<in> set (children n). everyNode floored x" "floored (attrs n)"
    using assms by (cases n, simp)+
  have 1: "\<forall>x \<in> set cs1. everyNode floored x"
    unfolding cs1_def using 0(1) by (intro floored_update) (simp_all add: floored_getRequiredWidth)
  have 2: "\<forall>x \<in> set cs2. everyNode floored x"
    unfolding cs2_def using 1 by (intro floored_update) (simp_all add: floored_getRequiredWidth)
  have 3: "everyNode floored n1"
    unfolding n1_def using 2 0(2) by (intro floored_getRequiredWidth[THEN conjunct1]) simp
  have "fst (placeBars c vp n w) =
     Node (fst (snd (getHorizontalBar (fst (snd (getChildBar (attrs n1) w)))
        (attach c (fst (getChildBar (attrs n1) w)) (modify (fst (getChildBar (attrs n1) w))
                 (\<lambda>r. r\<lparr>style_left := Some (vp_x vp + NODE_WIDTH / 2),
                         style_top := Some (vp_y vp + NODE_HEIGHT)\<rparr>) (snd (snd (getChildBar (attrs n1) w)))))))) (children n1)"
    by (simp add: placeBars_def Let_def split_beta n1_def cs2_def cs1_def)
  then show ?thesis using 3 by (cases n1) (simp add: getBar_attrs)
qed

lemma floored_placeParentBar:
  "everyNode floored n \<Longrightarrow> everyNode floored (fst (snd (placeParentBar c vp n w)))"
  using floored_getRequiredWidth[of n]
  by (cases "snd (getRequiredWidth n)")
     (simp add: placeParentBar_def Let_def split_beta getBar_attrs)

lemma floored_draw:
  "draw c vp n w = Some (n', w', vp') \<Longrightarrow> everyNode floored n \<Longrightarrow> everyNode floored n'"
  "drawEach c vp cs w = Some (cs', w', vp') \<Longrightarrow> \<forall>x \<in> set cs. everyNode floored x \<Longrightarrow>
     \<forall>x \<in> set cs'. everyNode floored x"
proof (induction c vp n w and c vp cs w arbitrary: n' w' vp' and cs' w' vp' rule: draw_drawEach.induct)
  case (1 container vp f cs w)
  from "1.prems" obtain f1 w1 where pe: "placeElement container vp f w = Some (f1, w1)"
    by (auto split: option.splits)
  have f1: "everyNode floored (Node f1 cs)"
    using "1.prems"(2) placeElement_attrs[OF pe] by simp
  show ?case
  proof (cases "0 < length cs")
    case False
    then show ?thesis using "1.prems" pe f1 by auto
  next
    case True
    obtain n2 w2 where pb: "placeBars container vp (Node f1 cs) w1 = (n2, w2)" by fastforce
    from "1.prems" pe True pb obtain cs3 where
      de: "drawEach container (vp\<lparr>vp_y := vp_y vp + (NODE_HEIGHT + NODE_MARGIN_Y)\<rparr>) (children n2) w2 = Some (cs3, w', vp')"
      and n': "n' = Node (attrs n2) cs3"
      by (auto simp: Let_def split: option.splits)
    have n2: "everyNode floored n2"
      using floored_placeBars[OF f1, of container vp w1] pb by simp
    then have "\<forall>x \<in> set (children n2). everyNode floored x" by (cases n2) simp
    then have "\<forall>x \<in> set cs3. everyNode floored x"
      using "1.IH"[OF pe refl True refl pb[symmetric] refl de] by simp
    then show ?thesis using n' n2 by (cases n2) simp
  qed
next
  case (2 container vp w)
  then show ?case by simp
next
  case (3 container vp c cs w)
  obtain rw c1 w1 where pp: "placeParentBar container vp c w = (rw, c1, w1)"
    by (metis prod_cases3)
  from "3.prems" pp obtain c2 w2 vpc cs3 where
    d: "draw container \<lparr>vp_x = vp_x vp, vp_y = vp_y vp\<rparr> c1 w1 = Some (c2, w2, vpc)"
    and de: "drawEach container (vp\<lparr>vp_x := vp_x vp + (rw + NODE_MARGIN_X)\<rparr>) cs w2 = Some (cs3, w', vp')"
    and cs': "cs' = c2 # cs3"
    by (auto simp: Let_def split: option.splits)
  have "everyNode floored c1"
    using floored_placeParentBar[of c container vp w] pp "3.prems"(2) by simp
  then have "everyNode floored c2" using "3.IH"(1)[OF refl pp[symmetric] refl d] by simp
  moreover have "\<forall>x \<in> set cs3. everyNode floored x"
    using "3.IH"(2)[OF refl pp[symmetric] refl d refl refl de] "3.prems"(2) by simp
  ultimately show ?case using cs' by simp
qed

lemma floored_new:
  "\<forall>w. everyNode floored (fst (new_DrawingTreeNode b w))"
  "\<forall>r w. \<forall>c \<in> set (fst (constructEach r xs w)). everyNode floored c"
  by (induction b and xs rule: backing_induct)
     (auto simp: Let_def split_beta floored_def createRepresentation_attrs)

lemma floored_expand:
  "Some (expand r n w) = Some (n', w') \<Longrightarrow> everyNode floored n \<Longrightarrow> everyNode floored n'"
  using floored_new(2)[of "nodeChildren (attrs n)"]
  by (cases n) (auto simp: expand_def split_beta)

lemma floored_markDirty:
  "markDirty n w = Some (n', w') \<Longrightarrow> everyNode floored n \<Longrightarrow> everyNode floored n'"
  by (cases n) (auto simp: markDirty_def)

lemma floored_redraw:
  "redraw p n w = Some (n', w') \<Longrightarrow> everyNode floored n \<Longrightarrow> everyNode floored n'"
  by (auto simp: redraw_def split: option.splits dest: floored_draw(1))

lemma floored_invalidate:
  "invalidate p t w = Some (t', w') \<Longrightarrow> everyNode floored t \<Longrightarrow> everyNode floored t'"
  using everyNode_invalidate[of floored p t w t' w'] floored_markDirty floored_redraw
  by blast

lemma floored_collapse_markAt:
  "callAt p (collapse False) t w = Some (t1, w1) \<Longrightarrow> everyNode floored t \<Longrightarrow>
     everyNode floored (markAt p t1)"
proof (induction p arbitrary: t t1)
  case Nil
  then have "children t1 = []" using collapse_result(1)[of False t w t1 w1] by simp
  then show ?case by (cases t1) simp
next
  case (Cons i p)
  obtain f cs where t: "t = Node f cs" by (cases t)
  from Cons.prems(1) t obtain c where i: "i < length cs"
    and c: "callAt p (collapse False) (cs ! i) w = Some (c, w1)" and t1: "t1 = Node f (cs[i := c])"
    by (auto split: if_splits option.splits)
  have "everyNode floored (cs ! i)" using Cons.prems(2) i t by simp
  then have "everyNode floored (markAt p c)" using Cons.IH[OF c] by simp
  then show ?case using Cons.prems(2) t t1 i
    by (auto dest: set_update_subset_insert[THEN subsetD])
qed

lemma floored_collapse_invalidate:
  assumes c: "callAt p (collapse False) t w = Some (t1, w1)"
    and i: "invalidate p t1 w1 = Some (t', w')" and f: "everyNode floored t"
  shows "everyNode floored t'"
proof -
  from i obtain t2 w2 where m: "callAt p markDirty t1 w1 = Some (t2, w2)"
    by (auto split: option.splits)
  have "nodeAt t1 p \<noteq> None" by (rule callAt_nodeAt[OF m])
  then have t2: "t2 = markAt p t1" "w2 = w1" using callAt_markDirty[of t1 p w1] m by simp_all
  have f2: "everyNode floored t2" using floored_collapse_markAt[OF c f] t2 by simp
  show ?thesis
  proof (cases "p = []")
    case True
    then have "callAt [] (redraw []) t2 w2 = Some (t', w')" using i m by simp
    then show ?thesis using floored_redraw f2 by simp
  next
    case False
    then have "invalidate (butlast p) t2 w2 = Some (t', w')" using i m by simp
    then show ?thesis using floored_invalidate f2 by blast
  qed
qed

lemma floored_updateRepresentation:
  "Some (updateRepresentation p n w) = Some (n', w') \<Longrightarrow> everyNode floored n \<Longrightarrow>
     everyNode floored n'"
  by (cases n)
     (auto simp: updateRepresentation_def Let_def split_beta createRepresentation_attrs
       split: option.splits)

lemma floored_click:
  assumes "click ctrlKey p t w = Some (t', w')" "everyNode floored t"
  shows "everyNode floored t'"
proof -
  from assms(1) obtain that where that: "nodeAt t p = Some that"
    by (auto simp: click_def split: option.splits)
  consider (expand) t1 w1 where "callAt p (\<lambda>n w. Some (expand ctrlKey n w)) t w = Some (t1, w1)"
      "invalidate p t1 w1 = Some (t', w')"
    | (collapse) t1 w1 where "callAt p (collapse False) t w = Some (t1, w1)"
      "invalidate p t1 w1 = Some (t', w')"
    | (nothing) "(t', w') = (t, w)"
    using assms(1) that
    by (auto simp: click_def simp del: invalidate.simps split: option.splits if_splits)
  then show ?thesis
  proof cases
    case expand
    have "everyNode floored t1"
      by (rule everyNode_callAt[OF floored_expand expand(1) assms(2)])
    then show ?thesis by (rule floored_invalidate[OF expand(2)])
  next
    case collapse
    show ?thesis by (rule floored_collapse_invalidate[OF collapse assms(2)])
  next
    case nothing
    then show ?thesis using assms(2) by simp
  qed
qed

lemma floored_BuildTree:
  "BuildTree container rootNode w = Some (t, w') \<Longrightarrow> everyNode floored t"
  using floored_new(1)[of rootNode]
  by (auto simp: BuildTree_def Let_def split_beta split: option.splits dest: floored_draw(1))

lemma running_floored: "running s \<Longrightarrow> everyNode floored (fst s)"
proof (induction rule: running.induct)
  case (built container rootNode w s)
  then show ?case using floored_BuildTree[of container rootNode w "fst s" "snd s"] by simp
next
  case (clicked t w ctrlKey p s)
  then show ?case using floored_click[of ctrlKey p t w "fst s" "snd s"] by simp
next
  case (refreshed t w p s)
  have c: "callAt p (\<lambda>n w. Some (updateRepresentation p n w)) t w = Some (fst s, snd s)"
    using refreshed by simp
  have ih: "everyNode floored t" using refreshed.IH by simp
  show ?case by (rule everyNode_callAt[OF floored_updateRepresentation c ih])
qed

text \<open>
  A tree is \<open>ready\<close> when all its nodes have representations and its root has been drawn.
  Running trees are ready, and on a ready tree a click on any node returns: no state of
  the program is missing from \<open>running\<close> because a listener failed halfway.
\<close>

definition drawnBefore :: "vfields \<Rightarrow> bool" where
  "drawnBefore f = (lastContainer f \<noteq> None \<and> lastViewport f \<noteq> None)"

definition ready :: "DrawingTreeNode \<Rightarrow> bool" where
  "ready t = (everyNode hasRepresentation t \<and> drawnBefore (attrs t))"

lemma collapse_drawnBefore:
  "collapse r n w = Some (n', w') \<Longrightarrow> drawnBefore (attrs n) \<Longrightarrow> drawnBefore (attrs n')"
  by (cases n)
     (auto simp: drawnBefore_def resetCollapsed_def removeBars_def removeOwn_def Let_def split_beta
        getBar_attrs split: option.splits if_splits)

lemma expand_drawnBefore:
  "Some (expand r n w) = Some (n', w') \<Longrightarrow> drawnBefore (attrs n) \<Longrightarrow> drawnBefore (attrs n')"
  using expand_attrs[of r n w] by (auto simp: drawnBefore_def)

lemma updateRepresentation_drawnBefore:
  "Some (updateRepresentation p n w) = Some (n', w') \<Longrightarrow> drawnBefore (attrs n) \<Longrightarrow>
     drawnBefore (attrs n')"
  by (auto simp: updateRepresentation_def Let_def split_beta createRepresentation_attrs
       drawnBefore_def split: option.splits)

lemma updateRepresentation_hasRepresentation:
  "Some (updateRepresentation p n w) = Some (n', w') \<Longrightarrow> everyNode hasRepresentation n \<Longrightarrow>
     everyNode hasRepresentation n'"
  by (cases n)
     (auto simp: updateRepresentation_def Let_def split_beta createRepresentation_attrs
       hasRepresentation_def split: option.splits)

lemma callAt_root:
  assumes m: "\<And>n w n' w'. m n w = Some (n', w') \<Longrightarrow> drawnBefore (attrs n) \<Longrightarrow> drawnBefore (attrs n')"
  shows "callAt p m t w = Some (t', w') \<Longrightarrow> drawnBefore (attrs t) \<Longrightarrow> drawnBefore (attrs t')"
proof (cases p)
  case Nil
  assume "callAt p m t w = Some (t', w')" "drawnBefore (attrs t)"
  then show ?thesis using Nil m by simp
next
  case (Cons i q)
  assume "callAt p m t w = Some (t', w')" "drawnBefore (attrs t)"
  then show ?thesis using Cons by (cases t) (auto split: if_splits option.splits)
qed

lemma ready_callAt:
  assumes h: "\<And>n w n' w'. m n w = Some (n', w') \<Longrightarrow> everyNode hasRepresentation n \<Longrightarrow>
                everyNode hasRepresentation n'"
    and d: "\<And>n w n' w'. m n w = Some (n', w') \<Longrightarrow> drawnBefore (attrs n) \<Longrightarrow> drawnBefore (attrs n')"
    and c: "callAt p m t w = Some (t', w')" and r: "ready t"
  shows "ready t'"
proof -
  have "everyNode hasRepresentation t'"
    by (rule everyNode_callAt[OF h c]) (use r in \<open>simp_all add: ready_def\<close>)
  moreover have "drawnBefore (attrs t')"
    by (rule callAt_root[OF d c]) (use r in \<open>simp_all add: ready_def\<close>)
  ultimately show ?thesis by (simp add: ready_def)
qed

lemma invalidate_returns:
  assumes "nodeAt t p \<noteq> None" and "ready t"
  shows "\<exists>t' w'. invalidate p t w = Some (t', w') \<and> ready t'"
proof -
  have eq: "invalidate p t w = redraw [] (dirtyAlong p t) w"
    by (rule invalidate_dirtyAlong[OF assms(1)])
  obtain c vp where c: "lastContainer (attrs (dirtyAlong p t)) = Some c"
    and vp: "lastViewport (attrs (dirtyAlong p t)) = Some vp"
    using assms(2) by (auto simp: dirtyAlong_attrs ready_def drawnBefore_def)
  have h: "everyNode hasRepresentation (dirtyAlong p t)"
    using assms(2) hasRepresentation_strip[of t] hasRepresentation_strip[of "dirtyAlong p t"]
    by (simp add: strip_dirtyAlong ready_def)
  then obtain t' w' vp' where
    d: "draw c vp (dirtyAlong p t) (w\<lparr>redrawCalls := redrawCalls w @ [[]]\<rparr>) = Some (t', w', vp')"
    using draw_succeeds(1)[of "dirtyAlong p t" c vp "w\<lparr>redrawCalls := redrawCalls w @ [[]]\<rparr>"]
    by auto
  have "ready t'"
    using hasRepresentation_draw[OF d h] draw_fields(1,2)[OF d] by (simp add: ready_def drawnBefore_def)
  moreover have "redraw [] (dirtyAlong p t) w = Some (t', w')"
    using c vp d by (simp add: redraw_def)
  ultimately show ?thesis using eq by simp
qed

lemma callAt_keeps_path: "callAt p m t w = Some (t1, w1) \<Longrightarrow> nodeAt t1 p \<noteq> None"
proof (induction p arbitrary: t t1)
  case Nil
  then show ?case by simp
next
  case (Cons i p)
  then show ?case by (cases t) (auto split: if_splits option.splits)
qed

lemma click_returns:
  assumes "nodeAt t p \<noteq> None" and "ready t"
  shows "\<exists>t' w'. click ctrlKey p t w = Some (t', w') \<and> ready t'"
proof -
  obtain that where at: "nodeAt t p = Some that" using assms(1) by auto
  have h: "everyNode hasRepresentation that"
    using everyNode_subtree[OF _ at, of hasRepresentation] assms(2) by (simp add: ready_def)
  consider (expand) "\<not> isExpanded (attrs that)" | (collapse) "isExpanded (attrs that)" "ctrlKey"
    | (nothing) "isExpanded (attrs that)" "\<not> ctrlKey"
    by blast
  then show ?thesis
  proof cases
    case expand
    obtain t1 w1 where c: "callAt p (\<lambda>n w. Some (expand ctrlKey n w)) t w = Some (t1, w1)"
      using callAt_returns[OF at, of "\<lambda>n w. Some (expand ctrlKey n w)" w] by auto
    have "ready t1"
      by (rule ready_callAt[OF hasRepresentation_expand_some expand_drawnBefore c assms(2)])
    then obtain t' w' where "invalidate p t1 w1 = Some (t', w')" "ready t'"
      using invalidate_returns[OF callAt_keeps_path[OF c], of w1] by blast
    then show ?thesis using at expand c by (simp add: click_def del: invalidate.simps)
  next
    case collapse
    obtain t1 w1 where c: "callAt p (collapse False) t w = Some (t1, w1)"
      using callAt_returns[OF at, of "collapse False" w] collapse_succeeds(1)[OF h, of False w]
      by auto
    have "ready t1"
      by (rule ready_callAt[OF hasRepresentation_collapse collapse_drawnBefore c assms(2)])
    then obtain t' w' where "invalidate p t1 w1 = Some (t', w')" "ready t'"
      using invalidate_returns[OF callAt_keeps_path[OF c], of w1] by blast
    then show ?thesis using at collapse c by (simp add: click_def del: invalidate.simps)
  next
    case nothing
    then show ?thesis using at assms(2) by (simp add: click_def del: invalidate.simps)
  qed
qed

lemma BuildTree_returns:
  "\<exists>t w'. BuildTree container rootNode w = Some (t, w') \<and> ready t"
proof -
  define w2 where "w2 = modify container (\<lambda>r. r\<lparr>className := ''node-container''\<rparr>)
     ((fold (\<lambda>k. modify k (\<lambda>r. r\<lparr>parentNode := None\<rparr>)) (childNodes w container) w)
                 \<lparr>childNodes := (childNodes w)(container := [])\<rparr>)"
  have h: "everyNode hasRepresentation (fst (new_DrawingTreeNode rootNode w2))"
    using new_renews(1)[of rootNode] by simp
  then obtain t w' vp where d: "draw container \<lparr>vp_x = 0, vp_y = 0\<rparr>
      (fst (new_DrawingTreeNode rootNode w2)) (snd (new_DrawingTreeNode rootNode w2)) = Some (t, w', vp)"
    using draw_succeeds(1)[of "fst (new_DrawingTreeNode rootNode w2)" container
        "\<lparr>vp_x = 0, vp_y = 0\<rparr>" "snd (new_DrawingTreeNode rootNode w2)"]
    by auto
  have "ready t"
    using hasRepresentation_draw[OF d h] draw_fields(1,2)[OF d] by (simp add: ready_def drawnBefore_def)
  moreover have "BuildTree container rootNode w = Some (t, w')"
    using d by (simp add: BuildTree_def Let_def split_beta w2_def del: new_DrawingTreeNode.simps)
  ultimately show ?thesis by blast
qed

lemma running_ready: "running s \<Longrightarrow> ready (fst s)"
proof (induction rule: running.induct)
  case (built container rootNode w s)
  then show ?case using BuildTree_returns[of container rootNode w] by auto
next
  case (clicked t w ctrlKey p s)
  have "nodeAt t p \<noteq> None" using clicked(2) by (auto simp: click_def split: option.splits)
  then show ?case using click_returns[of t p ctrlKey w] clicked by auto
next
  case (refreshed t w p s)
  have c: "callAt p (\<lambda>n w. Some (updateRepresentation p n w)) t w = Some (fst s, snd s)"
    using refreshed by simp
  have ih: "ready t" using refreshed.IH by simp
  show ?case
    by (rule ready_callAt[OF updateRepresentation_hasRepresentation
          updateRepresentation_drawnBefore c ih])
qed

lemma running_click_returns:
  assumes "running (t, w)" and "nodeAt t p \<noteq> None"
  shows "\<exists>s. click ctrlKey p t w = Some s \<and> running s"
proof -
  have "ready t" using running_ready[OF assms(1)] by simp
  then obtain t' w' where c: "click ctrlKey p t w = Some (t', w')"
    using click_returns[OF assms(2), of ctrlKey w] by blast
  then show ?thesis using running.clicked[OF assms(1) c] by simp
qed

text \<open>
  The sample hierarchy (a root with two leaves) built in an empty document, then after a
  click on the root, which expands it, and then after a click with the control key on the
  root, which collapses it again.
\<close>

lemma invalidate_strip:
  assumes "invalidate p t w = Some (t', w')"
  shows "strip t' = strip t"
proof -
  from assms obtain s where "callAt p markDirty t w = Some s" by (auto split: option.splits)
  then have "nodeAt t p \<noteq> None" by (rule callAt_nodeAt)
  then have "redraw [] (dirtyAlong p t) w = Some (t', w')"
    using invalidate_dirtyAlong[of t p w] assms by simp
  then obtain c vp w0 vp' where "draw c vp (dirtyAlong p t) w0 = Some (t', w', vp')"
    by (auto simp: redraw_def split: option.splits)
  then show ?thesis using strip_draw(1) strip_dirtyAlong[of p t] by metis
qed

lemma strip_isExpanded: "strip n' = strip n \<Longrightarrow> isExpanded (attrs n') = isExpanded (attrs n)"
proof -
  assume a: "strip n' = strip n"
  obtain f cs f' cs' where n: "n = Node f cs" "n' = Node f' cs'" by (cases n; cases n') auto
  have "isExpanded (attrs (strip n')) = isExpanded (attrs (strip n))" using a by simp
  then show ?thesis using n by simp
qed

lemma strip_nodeChildren: "strip n' = strip n \<Longrightarrow> nodeChildren (attrs n') = nodeChildren (attrs n)"
proof -
  assume a: "strip n' = strip n"
  obtain f cs f' cs' where n: "n = Node f cs" "n' = Node f' cs'" by (cases n; cases n') auto
  have "nodeChildren (attrs (strip n')) = nodeChildren (attrs (strip n))" using a by simp
  then show ?thesis using n by simp
qed

lemma click_expands_root:
  assumes "\<not> isExpanded (attrs t)" and "click ctrlKey [] t w = Some (t', w')"
  shows "isExpanded (attrs t') \<and> length (children t') = length (nodeChildren (attrs t))"
proof -
  from assms have i: "invalidate [] (fst (expand ctrlKey t w)) (snd (expand ctrlKey t w)) = Some (t', w')"
    by (simp add: click_def split_beta del: invalidate.simps)
  have s: "strip t' = strip (fst (expand ctrlKey t w))" by (rule invalidate_strip[OF i])
  have "length (children t') = length (children (fst (expand ctrlKey t w)))"
    using strip_children[OF s] by (metis length_map)
  then show ?thesis using strip_isExpanded[OF s]
    by (simp add: expand_attrs) (simp add: expand_def split_beta constructEach_length)
qed

lemma click_collapses_root:
  assumes "isExpanded (attrs t)" and "click True [] t w = Some (t', w')"
  shows "children t' = [] \<and> requiredWidth (attrs t') = - 1"
proof -
  from assms obtain t1 w1 where c: "collapse False t w = Some (t1, w1)"
    and i: "invalidate [] t1 w1 = Some (t', w')"
    by (auto simp: click_def simp del: invalidate.simps split: option.splits)
  obtain f1 where t1: "t1 = Node f1 []" using collapse_result(1)[OF c] by (cases t1) simp
  have "redraw [] (Node (f1\<lparr>requiredWidth := - 1\<rparr>) []) w1 = Some (t', w')"
    using i t1 invalidate_dirtyAlong[of t1 "[]" w1] by simp
  then obtain container vp w0 vp' where
    "draw container vp (Node (f1\<lparr>requiredWidth := - 1\<rparr>) []) w0 = Some (t', w', vp')"
    by (auto simp: redraw_def simp del: draw.simps split: option.splits)
  then show ?thesis by (auto simp: placeElement_def Let_def split: option.splits)
qed

lemma BuildTree_draw:
  assumes "BuildTree container rootNode w = Some s"
  shows "\<exists>w2 vp. draw container \<lparr>vp_x = 0, vp_y = 0\<rparr> (fst (new_DrawingTreeNode rootNode w2))
                   (snd (new_DrawingTreeNode rootNode w2)) = Some (fst s, snd s, vp)
                 \<and> drawingTreeNodeIsExpanded w2 = drawingTreeNodeIsExpanded w"
proof -
  define w2 where "w2 = modify container (\<lambda>r. r\<lparr>className := ''node-container''\<rparr>)
     ((fold (\<lambda>k. modify k (\<lambda>r. r\<lparr>parentNode := None\<rparr>)) (childNodes w container) w)
                 \<lparr>childNodes := (childNodes w)(container := [])\<rparr>)"
  have "drawingTreeNodeIsExpanded (fold (\<lambda>k. modify k g) ks w) = drawingTreeNodeIsExpanded w" for g ks
    by (induction ks arbitrary: w) simp_all
  then have "drawingTreeNodeIsExpanded w2 = drawingTreeNodeIsExpanded w" by (simp add: w2_def)
  moreover from assms obtain vp where "draw container \<lparr>vp_x = 0, vp_y = 0\<rparr>
      (fst (new_DrawingTreeNode rootNode w2)) (snd (new_DrawingTreeNode rootNode w2))
      = Some (fst s, snd s, vp)"
    by (auto simp: BuildTree_def Let_def split_beta w2_def split: option.splits)
  ultimately show ?thesis by blast
qed

definition sampleBuilt :: "DrawingTreeNode \<times> world" where
  "sampleBuilt = (case BuildTree 0 sampleBacking hostWorld of None \<Rightarrow> sampleRoot | Some s \<Rightarrow> s)"

definition sampleOpened :: "DrawingTreeNode \<times> world" where
  "sampleOpened =
     (case click False [] (fst sampleBuilt) (snd sampleBuilt) of None \<Rightarrow> sampleBuilt | Some s \<Rightarrow> s)"

definition sampleClosed :: "DrawingTreeNode \<times> world" where
  "sampleClosed =
     (case click True [] (fst sampleOpened) (snd sampleOpened) of None \<Rightarrow> sampleOpened | Some s \<Rightarrow> s)"

lemma sampleBuilt_running:
  "BuildTree 0 sampleBacking hostWorld = Some sampleBuilt" "running sampleBuilt"
  "\<not> isExpanded (attrs (fst sampleBuilt))"
  "nodeChildren (attrs (fst sampleBuilt)) = [Backing 1 [], Backing 2 []]"
proof -
  show b: "BuildTree 0 sampleBacking hostWorld = Some sampleBuilt"
    using BuildTree_returns[of 0 sampleBacking hostWorld] by (auto simp: sampleBuilt_def)
  show "running sampleBuilt" by (rule running.built[OF b])
  from BuildTree_draw[OF b] obtain w2 vp where
    "draw 0 \<lparr>vp_x = 0, vp_y = 0\<rparr> (fst (new_DrawingTreeNode sampleBacking w2))
      (snd (new_DrawingTreeNode sampleBacking w2)) = Some (fst sampleBuilt, snd sampleBuilt, vp)"
    and w2: "drawingTreeNodeIsExpanded w2 = drawingTreeNodeIsExpanded hostWorld"
    by blast
  then have s: "strip (fst sampleBuilt) = strip (fst (new_DrawingTreeNode sampleBacking w2))"
    using strip_draw(1) by blast
  have "\<not> drawingTreeNodeIsExpanded w2 0" using w2 by (simp add: hostWorld_def)
  then show "\<not> isExpanded (attrs (fst sampleBuilt))"
    "nodeChildren (attrs (fst sampleBuilt)) = [Backing 1 [], Backing 2 []]"
    using strip_isExpanded[OF s] strip_nodeChildren[OF s]
    by (simp_all add: new_DrawingTreeNode_attrs sampleBacking_def freshFields_def
        del: new_DrawingTreeNode.simps)
qed

lemma sampleOpened_running:
  "click False [] (fst sampleBuilt) (snd sampleBuilt) = Some sampleOpened" "running sampleOpened"
  "isExpanded (attrs (fst sampleOpened))" "length (children (fst sampleOpened)) = 2"
proof -
  obtain s where c: "click False [] (fst sampleBuilt) (snd sampleBuilt) = Some s" and "running s"
    using running_click_returns[of "fst sampleBuilt" "snd sampleBuilt" "[]" False]
      sampleBuilt_running(2) by auto
  then show o: "click False [] (fst sampleBuilt) (snd sampleBuilt) = Some sampleOpened"
    and "running sampleOpened"
    by (simp_all add: sampleOpened_def)
  show "isExpanded (attrs (fst sampleOpened))" "length (children (fst sampleOpened)) = 2"
    using click_expands_root[OF sampleBuilt_running(3), of False "snd sampleBuilt"
        "fst sampleOpened" "snd sampleOpened"] o sampleBuilt_running(4)
    by simp_all
qed

lemma sampleClosed_running:
  "click True [] (fst sampleOpened) (snd sampleOpened) = Some sampleClosed" "running sampleClosed"
proof -
  obtain s where c: "click True [] (fst sampleOpened) (snd sampleOpened) = Some s" and "running s"
    using running_click_returns[of "fst sampleOpened" "snd sampleOpened" "[]" True]
      sampleOpened_running(2) by auto
  then show "click True [] (fst sampleOpened) (snd sampleOpened) = Some sampleClosed"
    and "running sampleClosed"
    by (simp_all add: sampleClosed_def)
qed

text \<open>
  Claim C3. In every state of the running program (built by \<open>BuildTree\<close>, then changed by
  clicks, which expand a node and invalidate it or collapse a node and invalidate it, and
  by \<open>updateRepresentation\<close>), \<open>getRequiredWidth\<close> of every node of the tree returns at least
  \<open>NODE_WIDTH\<close>, and the cached width of the node is dirty or at least \<open>NODE_WIDTH\<close>: the \<open>0\<close>
  that \<open>collapse\<close> stores has been overwritten by \<open>invalidate\<close> when the click returns, and
  the children collapsed with it are no longer in the tree.
\<close>

theorem getRequiredWidth_at_least_minimum:
  assumes "running (t, w)" and "nodeAt t p = Some n"
  shows "NODE_WIDTH \<le> fst (getRequiredWidth n)
         \<and> (requiredWidth (attrs n) = - 1 \<or> NODE_WIDTH \<le> requiredWidth (attrs n))"
proof -
  have "everyNode floored t" using running_floored[OF assms(1)] by simp
  then have n: "everyNode floored n" by (rule everyNode_subtree[OF _ assms(2)])
  then have "floored (attrs n)" by (cases n) simp
  then show ?thesis using floored_getRequiredWidth[OF n] by (simp add: floored_def)
qed

text \<open>
  For instance on the sample after the click that collapses the root: the root has no
  children and a dirty width, and \<open>getRequiredWidth\<close> recomputes it.
\<close>

theorem getRequiredWidth_at_least_minimum_witness:
  "running (fst sampleClosed, snd sampleClosed)
   \<and> nodeAt (fst sampleClosed) [] = Some (fst sampleClosed)
   \<and> children (fst sampleClosed) = [] \<and> requiredWidth (attrs (fst sampleClosed)) = - 1
   \<and> NODE_WIDTH \<le> fst (getRequiredWidth (fst sampleClosed))"
proof -
  have r: "running (fst sampleClosed, snd sampleClosed)" using sampleClosed_running(2) by simp
  have n: "nodeAt (fst sampleClosed) [] = Some (fst sampleClosed)" by simp
  have "children (fst sampleClosed) = [] \<and> requiredWidth (attrs (fst sampleClosed)) = - 1"
    using click_collapses_root[OF sampleOpened_running(3), of "snd sampleOpened"
        "fst sampleClosed" "snd sampleClosed"] sampleClosed_running(1) by simp
  then show ?thesis using getRequiredWidth_at_least_minimum[OF r n] r by simp
qed

end
